theory Spec2Isabelle
  imports Main "HOL-Library.Word"
begin

unbundle bit_operations_syntax

section \<open>The translation cache of \<^verbatim>\<open>src/htm/tlb.c\<close>\<close>

text \<open>
  The C file keeps one global \<^verbatim>\<open>struct tlb_cache tlb\<close> and one global
  \<^verbatim>\<open>int tlb_debug\<close>. Every function below takes the globals and returns them
  updated. A failed \<^verbatim>\<open>assert\<close> ends the process: a function that can reach one
  returns \<open>fatal + 'a\<close>, with \<open>Inl\<close> naming the assertion that failed.

  \<^item> \<^verbatim>\<open>uint64_t\<close> is \<open>64 word\<close>: \<open>+\<close> and \<open>-\<close> wrap, \<open><\<close> and \<open>\<le>\<close> compare
    unsigned.
  \<^item> \<^verbatim>\<open>int\<close> is \<open>32 word\<close>, read with \<open>sint\<close>. The \<^verbatim>\<open>++\<close> on a field is
    \<open>+ 1\<close> on the word: an overflow, which C leaves undefined, is the wrap-around of
    the machine.
  \<^item> A loop variable \<^verbatim>\<open>int i\<close> is an \<open>int\<close>: each loop guard (\<^verbatim>\<open>i < tlb.next\<close>,
    \<^verbatim>\<open>i < TLB_SIZE\<close>) bounds it by a value of type \<^verbatim>\<open>int\<close> before \<^verbatim>\<open>i++\<close>, so it
    never leaves the range of the C type.
  \<^item> The array \<^verbatim>\<open>tlb.tlb[TLB_SIZE]\<close> is a list; an access outside it is the
    fatal result \<open>Out_of_bounds\<close>.
  \<^item> A pointer argument that the function only tests and writes through is a
    \<open>bool\<close>, true when the pointer is not null; what is written through it is part of
    the result.
  \<^item> \<^verbatim>\<open>printf\<close> output is not part of the model, so \<^verbatim>\<open>tlb_print\<close> and
    \<^verbatim>\<open>tlb_dump\<close> have no counterpart, and \<^verbatim>\<open>tlb_match\<close> does not read
    \<^verbatim>\<open>tlb_debug\<close>.
\<close>

type_synonym u64 = "64 word"

type_synonym c_int = "32 word"

datatype fatal =
    Bad_pagesize
  | Bad_flags
  | Entry_not_valid
  | Misaligned_ea
  | Misaligned_ra
  | Next_exceeds_size
  | Overlap
  | Hole
  | Not_in_range
  | Null_pointer
  | Out_of_bounds

text \<open>\<^verbatim>\<open>struct tlbe\<close>. The field \<^verbatim>\<open>size\<close> is \<open>size_tlbe\<close> here.\<close>

record tlbe =
  ea :: u64
  ra :: u64
  size_tlbe :: u64
  flags :: u64
  hit_count :: u64
  miss_count :: u64
  valid :: bool

text \<open>\<^verbatim>\<open>struct tlb_cache\<close>. The fields \<^verbatim>\<open>next\<close> and \<^verbatim>\<open>translations\<close> are \<open>next_tlb\<close> and \<open>translations_tlb\<close> here.\<close>

record tlb_cache =
  tlb :: "tlbe list"
  next_tlb :: c_int
  translations_tlb :: c_int
  no_translation :: c_int
  translation_changes :: c_int

text \<open>The two globals of the file: the cache and \<^verbatim>\<open>tlb_debug\<close>.\<close>

record globals = tlb_cache +
  tlb_debug :: c_int

definition TLB_SIZE :: int where
  "TLB_SIZE = 256"

text \<open>
  Modelled from the spec: \<^verbatim>\<open>tlb.h\<close>, which defines \<^verbatim>\<open>TLB_FLAGS_RELOC\<close>, is not
  among the sources. The spec says the permitted flag bits are a single
  "relocation" bit; its position is taken to be bit 0. No proof below unfolds this
  definition, so every theorem holds for any value of the constant.
\<close>

definition TLB_FLAGS_RELOC :: u64 where
  "TLB_FLAGS_RELOC = 1"

definition TLB_FLAGS_AVALIABLE :: u64 where
  "TLB_FLAGS_AVALIABLE = TLB_FLAGS_RELOC"

definition tlb_at :: "tlbe list \<Rightarrow> int \<Rightarrow> tlbe option" where
  "tlb_at ts i = (if 0 \<le> i \<and> i < TLB_SIZE \<and> i < int (length ts) then Some (ts ! nat i) else None)"

definition tlb_mask_offset :: "tlbe \<Rightarrow> u64" where
  "tlb_mask_offset t = size_tlbe t - 1"

definition tlb_mask_rpn :: "tlbe \<Rightarrow> u64" where
  "tlb_mask_rpn t = NOT (tlb_mask_offset t)"

definition tlb_pagesize_validate :: "u64 \<Rightarrow> fatal + unit" where
  "tlb_pagesize_validate sz =
     (if sz = 4096 \<or> sz = 65536 \<or> sz = 16777216 then Inr () else Inl Bad_pagesize)"

definition tlb_flags_validate :: "u64 \<Rightarrow> fatal + unit" where
  "tlb_flags_validate fl =
     (if fl AND NOT TLB_FLAGS_AVALIABLE = 0 then Inr () else Inl Bad_flags)"

definition tlb_equal :: "tlbe \<Rightarrow> tlbe \<Rightarrow> bool" where
  "tlb_equal t1 t2 =
     (if ea t1 \<noteq> ea t2 then False
      else if ra t1 \<noteq> ra t2 then False
      else if size_tlbe t1 \<noteq> size_tlbe t2 then False
      else if flags t1 \<noteq> flags t2 then False
      else if valid t1 \<noteq> valid t2 then False
      else True)"

definition tlb_entry_validate :: "tlbe \<Rightarrow> fatal + unit" where
  "tlb_entry_validate t =
     (if \<not> valid t then Inl Entry_not_valid
      else case tlb_pagesize_validate (size_tlbe t) of
        Inl e \<Rightarrow> Inl e
      | Inr _ \<Rightarrow>
         (case tlb_flags_validate (flags t) of
            Inl e \<Rightarrow> Inl e
          | Inr _ \<Rightarrow>
             (let mask = tlb_mask_offset t in
              if ea t AND mask \<noteq> 0 then Inl Misaligned_ea
              else if ra t AND mask \<noteq> 0 then Inl Misaligned_ra
              else Inr ())))"

definition tlb_match :: "u64 \<Rightarrow> u64 \<Rightarrow> tlbe \<Rightarrow> fatal + bool" where
  "tlb_match va fl t =
     (case tlb_entry_validate t of
        Inl e \<Rightarrow> Inl e
      | Inr _ \<Rightarrow>
          Inr (if va < ea t then False
               else if va \<ge> ea t + size_tlbe t then False
               else if fl \<noteq> flags t then False
               else True))"

text \<open>
  \<^verbatim>\<open>__tlb_get_index\<close>: the linear scan from \<open>start\<close> to \<^verbatim>\<open>tlb.next\<close>. The result is
  the index of the first match, whose hit counter has been incremented, or \<open>-1\<close>.
\<close>

function tlb_get_index_from :: "u64 \<Rightarrow> u64 \<Rightarrow> int \<Rightarrow> globals \<Rightarrow> fatal + (int \<times> globals)" where
  "tlb_get_index_from va fl i s =
     (if i < sint (next_tlb s) then
        (case tlb_at (tlb s) i of
           None \<Rightarrow> Inl Out_of_bounds
         | Some t \<Rightarrow>
            (case tlb_match va fl t of
               Inl e \<Rightarrow> Inl e
             | Inr m \<Rightarrow>
                 if m then
                   (case tlb_entry_validate t of
                      Inl e \<Rightarrow> Inl e
                    | Inr _ \<Rightarrow>
                        Inr (i, s\<lparr>tlb := (tlb s)[nat i := t\<lparr>hit_count := hit_count t + 1\<rparr>]\<rparr>))
                 else tlb_get_index_from va fl (i + 1) s))
      else Inr (- 1, s))"
  by pat_completeness auto
termination
  by (relation "measure (\<lambda>(va, fl, i, s). nat (sint (next_tlb s) - i))") auto

declare tlb_get_index_from.simps [simp del]

definition tlb_get_index :: "u64 \<Rightarrow> u64 \<Rightarrow> globals \<Rightarrow> fatal + (int \<times> globals)" where
  "tlb_get_index va fl s = tlb_get_index_from va fl 0 s"

text \<open>
  \<^verbatim>\<open>tlb_validate\<close>, first loop ("Check for overlaps"): for each entry below
  \<^verbatim>\<open>tlb.next\<close>, its first and its last address are looked up among the entries
  after it; both lookups must return \<open>-1\<close>. The lookups are the ones above, so they
  validate every entry they visit and would count a hit.
\<close>

function tlb_validate_overlaps :: "int \<Rightarrow> globals \<Rightarrow> fatal + globals" where
  "tlb_validate_overlaps i s =
     (if i < sint (next_tlb s) then
        (case tlb_at (tlb s) i of
           None \<Rightarrow> Inl Out_of_bounds
         | Some t \<Rightarrow>
            (case tlb_get_index_from (ea t) (flags t) (i + 1) s of
               Inl e \<Rightarrow> Inl e
             | Inr (r1, s1) \<Rightarrow>
                 if r1 \<noteq> - 1 then Inl Overlap
                 else
                   (case tlb_at (tlb s1) i of
                      None \<Rightarrow> Inl Out_of_bounds
                    | Some t1 \<Rightarrow>
                       (case tlb_get_index_from (ea t1 + size_tlbe t1 - 1) (flags t1) (i + 1) s1 of
                          Inl e \<Rightarrow> Inl e
                        | Inr (r2, s2) \<Rightarrow>
                            if r2 \<noteq> - 1 then Inl Overlap
                            else tlb_validate_overlaps (i + 1) s2))))
      else Inr s)"
  by pat_completeness auto
termination
proof (relation "measure (\<lambda>(i, s). nat (sint (next_tlb s) - i))")
  show "wf (measure (\<lambda>(i, s). nat (sint (next_tlb s) - i)))"
    by simp
next
  have keep: "next_tlb s' = next_tlb s"
    if "tlb_get_index_from va fl i s = Inr (r, s')" for va fl i s r s'
    using that
  proof (induction va fl i s rule: tlb_get_index_from.induct)
    case (1 va fl i s)
    then show ?case
      by (subst (asm) (2) tlb_get_index_from.simps)
         (auto split: if_splits option.splits sum.splits)
  qed
  fix i :: int and s s1 s2 :: globals and t t1 :: tlbe and x2 y :: "int \<times> globals" and r1 r2 :: int
  assume "i < sint (next_tlb s)"
    and "tlb_get_index_from (ea t) (flags t) (i + 1) s = Inr x2"
    and "(r1, s1) = x2"
    and "tlb_get_index_from (ea t1 + size_tlbe t1 - 1) (flags t1) (i + 1) s1 = Inr y"
    and "(r2, s2) = y"
  then have "next_tlb s2 = next_tlb s"
    using keep by metis
  with \<open>i < sint (next_tlb s)\<close>
  show "((i + 1, s2), (i, s)) \<in> measure (\<lambda>(i, s). nat (sint (next_tlb s) - i))"
    by simp
qed

declare tlb_validate_overlaps.simps [simp del]

text \<open>
  \<^verbatim>\<open>tlb_validate\<close>, second loop ("Check for holes"): over all \<^verbatim>\<open>TLB_SIZE\<close> slots,
  a valid slot must follow a valid slot.
\<close>

function tlb_validate_holes :: "int \<Rightarrow> bool \<Rightarrow> tlbe list \<Rightarrow> fatal + unit" where
  "tlb_validate_holes i valid_last ts =
     (if i < TLB_SIZE then
        (case tlb_at ts i of
           None \<Rightarrow> Inl Out_of_bounds
         | Some t \<Rightarrow>
             if \<not> valid t \<or> valid_last then tlb_validate_holes (i + 1) (valid t) ts
             else Inl Hole)
      else Inr ())"
  by pat_completeness auto
termination
  by (relation "measure (\<lambda>(i, valid_last, ts). nat (TLB_SIZE - i))") auto

declare tlb_validate_holes.simps [simp del]

definition tlb_validate :: "globals \<Rightarrow> fatal + globals" where
  "tlb_validate s =
     (if \<not> sint (next_tlb s) \<le> TLB_SIZE then Inl Next_exceeds_size
      else
        (case tlb_validate_overlaps 0 s of
           Inl e \<Rightarrow> Inl e
         | Inr s1 \<Rightarrow>
            (case tlb_validate_holes 0 True (tlb s1) of
               Inl e \<Rightarrow> Inl e
             | Inr _ \<Rightarrow> Inr s1)))"

definition tlb_translate :: "u64 \<Rightarrow> u64 \<Rightarrow> tlbe \<Rightarrow> fatal + u64" where
  "tlb_translate va fl t =
     (if \<not> va \<ge> ea t then Inl Not_in_range
      else if \<not> va < ea t + size_tlbe t then Inl Not_in_range
      else
        (case tlb_flags_validate fl of
           Inl e \<Rightarrow> Inl e
         | Inr _ \<Rightarrow>
            (case tlb_entry_validate t of
               Inl e \<Rightarrow> Inl e
             | Inr _ \<Rightarrow>
                 (let r = va AND tlb_mask_offset t;
                      r = r OR (ra t AND tlb_mask_rpn t)
                  in Inr r))))"

text \<open>What \<^verbatim>\<open>memset(&tlb, 0, sizeof(tlb))\<close> leaves in each slot.\<close>

definition zero_tlbe :: tlbe where
  "zero_tlbe = \<lparr>ea = 0, ra = 0, size_tlbe = 0, flags = 0, hit_count = 0, miss_count = 0, valid = False\<rparr>"

definition tlb_init :: "globals \<Rightarrow> fatal + globals" where
  "tlb_init s =
     tlb_validate (s\<lparr>tlb := replicate (nat TLB_SIZE) zero_tlbe, next_tlb := 0,
                      translations_tlb := 0, no_translation := 0, translation_changes := 0\<rparr>)"

definition tlb_exit :: "globals \<Rightarrow> fatal + globals" where
  "tlb_exit s = tlb_validate s"

text \<open>
  \<^verbatim>\<open>tlb_ra_get\<close>. The arguments \<open>ra_ptr\<close> and \<open>pagesize_ptr\<close> say that the two
  output pointers are not null. What the function writes through them is the optional
  pair of the result: \<open>None\<close> is the C \<^verbatim>\<open>false\<close>, with nothing written, and
  \<open>Some (ra, pagesize)\<close> is \<^verbatim>\<open>true\<close>.
\<close>

definition tlb_ra_get ::
  "u64 \<Rightarrow> u64 \<Rightarrow> bool \<Rightarrow> bool \<Rightarrow> globals \<Rightarrow> fatal + ((u64 \<times> u64) option \<times> globals)" where
  "tlb_ra_get va fl ra_ptr pagesize_ptr s =
     (if \<not> ra_ptr then Inl Null_pointer
      else if \<not> pagesize_ptr then Inl Null_pointer
      else
        (let s0 = s\<lparr>translations_tlb := translations_tlb s + 1\<rparr> in
         case tlb_get_index va fl s0 of
           Inl e \<Rightarrow> Inl e
         | Inr (index, s1) \<Rightarrow>
             if index < 0 then Inr (None, s1\<lparr>no_translation := no_translation s1 + 1\<rparr>)
             else
               (case tlb_at (tlb s1) index of
                  None \<Rightarrow> Inl Out_of_bounds
                | Some t \<Rightarrow>
                   (case tlb_translate va fl t of
                      Inl e \<Rightarrow> Inl e
                    | Inr r \<Rightarrow> Inr (Some (r, size_tlbe t), s1)))))"

text \<open>
  \<^verbatim>\<open>tlb_ra_set\<close>. The local \<^verbatim>\<open>struct tlbe tnew\<close> is declared without an
  initialiser and the function assigns \<^verbatim>\<open>size\<close>, \<^verbatim>\<open>ea\<close>, \<^verbatim>\<open>ra\<close>, \<^verbatim>\<open>flags\<close>
  and \<^verbatim>\<open>valid\<close> only. The argument \<open>stack\<close> is what the local holds when the
  function is entered; its \<open>hit_count\<close> and \<open>miss_count\<close> are what
  \<^verbatim>\<open>memcpy\<close> then copies into the slot.
\<close>

definition tlb_ra_set :: "u64 \<Rightarrow> u64 \<Rightarrow> u64 \<Rightarrow> u64 \<Rightarrow> tlbe \<Rightarrow> globals \<Rightarrow> fatal + globals" where
  "tlb_ra_set va fl pa pagesize stack s =
     (case tlb_pagesize_validate pagesize of
        Inl e \<Rightarrow> Inl e
      | Inr _ \<Rightarrow>
     (case tlb_flags_validate fl of
        Inl e \<Rightarrow> Inl e
      | Inr _ \<Rightarrow>
     (case tlb_get_index va fl s of
        Inl e \<Rightarrow> Inl e
      | Inr (found, s1) \<Rightarrow>
     (case (if found < 0
            then (let index = sint (next_tlb s1);
                      s2 = s1\<lparr>next_tlb := next_tlb s1 + 1\<rparr>
                  in if sint (next_tlb s2) \<le> TLB_SIZE then Inr (index, s2)
                     else Inl Next_exceeds_size)
            else Inr (found, s1)) of
        Inl e \<Rightarrow> Inl e
      | Inr (index, s2) \<Rightarrow>
     (let s3 = s2\<lparr>tlb_debug := 0\<rparr> in
      case tlb_at (tlb s3) index of
        None \<Rightarrow> Inl Out_of_bounds
      | Some t \<Rightarrow>
     (let tnew = stack\<lparr>size_tlbe := pagesize\<rparr>;
          tnew = tnew\<lparr>ea := va AND tlb_mask_rpn tnew\<rparr>;
          tnew = tnew\<lparr>ra := pa AND tlb_mask_rpn tnew\<rparr>;
          tnew = tnew\<lparr>flags := fl\<rparr>;
          tnew = tnew\<lparr>valid := True\<rparr>
      in if tlb_equal tnew t
         then Inr (s3\<lparr>tlb := (tlb s3)[nat index := t\<lparr>miss_count := miss_count t + 1\<rparr>]\<rparr>)
         else
           (let s4 = (if valid t
                      then s3\<lparr>translation_changes := translation_changes s3 + 1\<rparr>
                      else s3)
            in tlb_validate (s4\<lparr>tlb := (tlb s4)[nat index := tnew]\<rparr>))))))))"

text \<open>
  The states of the globals that a run of the program can be in: the state after a
  \<^verbatim>\<open>tlb_init\<close> that returned, from any globals, and every state that a
  \<^verbatim>\<open>tlb_ra_get\<close>, a \<^verbatim>\<open>tlb_ra_set\<close> or a \<^verbatim>\<open>tlb_exit\<close> that returned leaves from
  such a state. \<^verbatim>\<open>tlb_debug\<close> is a global with external linkage, the toggle of the
  callers: they may assign it between two calls.
\<close>

inductive reachable :: "globals \<Rightarrow> bool" where
  init: "tlb_init s0 = Inr s \<Longrightarrow> reachable s"
| get: "reachable s \<Longrightarrow> tlb_ra_get va fl ra_ptr pagesize_ptr s = Inr (r, s') \<Longrightarrow> reachable s'"
| set: "reachable s \<Longrightarrow> tlb_ra_set va fl pa pagesize stack s = Inr s' \<Longrightarrow> reachable s'"
| exit: "reachable s \<Longrightarrow> tlb_exit s = Inr s' \<Longrightarrow> reachable s'"
| debug: "reachable s \<Longrightarrow> reachable (s\<lparr>tlb_debug := d\<rparr>)"

section \<open>Auxiliary definitions\<close>

text \<open>What \<^verbatim>\<open>tlb_entry_validate\<close> asserts.\<close>

definition entry_ok :: "tlbe \<Rightarrow> bool" where
  "entry_ok t \<longleftrightarrow> valid t \<and> (size_tlbe t = 4096 \<or> size_tlbe t = 65536 \<or> size_tlbe t = 16777216)
     \<and> flags t AND NOT TLB_FLAGS_AVALIABLE = 0
     \<and> ea t AND (size_tlbe t - 1) = 0 \<and> ra t AND (size_tlbe t - 1) = 0"

text \<open>The test of \<^verbatim>\<open>tlb_match\<close> on an entry that passed its check, in the arithmetic of \<^verbatim>\<open>uint64_t\<close>.\<close>

definition hits :: "u64 \<Rightarrow> u64 \<Rightarrow> tlbe \<Rightarrow> bool" where
  "hits va fl t \<longleftrightarrow> ea t \<le> va \<and> va < ea t + size_tlbe t \<and> fl = flags t"

text \<open>
  The address range \<open>[ea, ea + size)\<close> of an entry, read in the natural numbers, and
  the overlap of two such ranges.
\<close>

definition in_range :: "u64 \<Rightarrow> tlbe \<Rightarrow> bool" where
  "in_range va t \<longleftrightarrow> unat (ea t) \<le> unat va \<and> unat va < unat (ea t) + unat (size_tlbe t)"

definition ranges_overlap :: "tlbe \<Rightarrow> tlbe \<Rightarrow> bool" where
  "ranges_overlap t1 t2 \<longleftrightarrow>
     unat (ea t1) < unat (ea t2) + unat (size_tlbe t2) \<and>
     unat (ea t2) < unat (ea t1) + unat (size_tlbe t1)"

text \<open>
  The invariant of the reachable states: the array has its \<^verbatim>\<open>TLB_SIZE\<close> slots,
  \<^verbatim>\<open>tlb.next\<close> lies in \<open>0..256\<close>, the valid slots are those below it, and every
  valid slot passes \<^verbatim>\<open>tlb_entry_validate\<close>.
\<close>

definition tlb_inv :: "globals \<Rightarrow> bool" where
  "tlb_inv s \<longleftrightarrow> length (tlb s) = 256 \<and> 0 \<le> sint (next_tlb s) \<and> sint (next_tlb s) \<le> 256
     \<and> (\<forall>i<256. valid (tlb s ! i) = (int i < sint (next_tlb s)))
     \<and> (\<forall>i<256. valid (tlb s ! i) \<longrightarrow> entry_ok (tlb s ! i))"

text \<open>
  What the first loop of \<^verbatim>\<open>tlb_validate\<close> checks: no entry is hit, under the flags of
  an earlier entry, by the first or by the last address of that earlier entry.
\<close>

definition endpoints_free :: "globals \<Rightarrow> bool" where
  "endpoints_free s \<longleftrightarrow>
     (\<forall>j k. 0 \<le> j \<and> j < k \<and> k < sint (next_tlb s) \<longrightarrow>
        \<not> hits (ea (tlb s ! nat j)) (flags (tlb s ! nat j)) (tlb s ! nat k) \<and>
        \<not> hits (ea (tlb s ! nat j) + size_tlbe (tlb s ! nat j) - 1) (flags (tlb s ! nat j))
             (tlb s ! nat k))"

text \<open>The globals after the \<^verbatim>\<open>memset\<close> of \<^verbatim>\<open>tlb_init\<close>.\<close>

definition cleared :: "globals \<Rightarrow> globals" where
  "cleared s = s\<lparr>tlb := replicate (nat TLB_SIZE) zero_tlbe, next_tlb := 0,
                      translations_tlb := 0, no_translation := 0, translation_changes := 0\<rparr>"

text \<open>The candidate \<^verbatim>\<open>tnew\<close> that \<^verbatim>\<open>tlb_ra_set\<close> builds in its local.\<close>

definition tnew_of :: "u64 \<Rightarrow> u64 \<Rightarrow> u64 \<Rightarrow> u64 \<Rightarrow> tlbe \<Rightarrow> tlbe" where
  "tnew_of va fl pa pagesize stack =
     stack\<lparr>size_tlbe := pagesize, ea := va AND NOT (pagesize - 1), ra := pa AND NOT (pagesize - 1),
           flags := fl, valid := True\<rparr>"

text \<open>The tail of \<^verbatim>\<open>tlb_ra_set\<close> from \<^verbatim>\<open>t = &tlb.tlb[index]\<close> on.\<close>

definition set_slot :: "tlbe \<Rightarrow> int \<Rightarrow> globals \<Rightarrow> fatal + globals" where
  "set_slot tnew index s3 =
     (case tlb_at (tlb s3) index of
        None \<Rightarrow> Inl Out_of_bounds
      | Some t \<Rightarrow>
          if tlb_equal tnew t
          then Inr (s3\<lparr>tlb := (tlb s3)[nat index := t\<lparr>miss_count := miss_count t + 1\<rparr>]\<rparr>)
          else tlb_validate
                 ((if valid t then s3\<lparr>translation_changes := translation_changes s3 + 1\<rparr> else s3)
                    \<lparr>tlb := (tlb s3)[nat index := tnew]\<rparr>))"

text \<open>
  The globals when the program starts: \<^verbatim>\<open>struct tlb_cache tlb\<close> has static storage and
  is zero, \<^verbatim>\<open>tlb_debug\<close> is initialised to 0.
\<close>

definition boot :: globals where
  "boot = \<lparr>tlb = replicate (nat TLB_SIZE) zero_tlbe, next_tlb = 0, translations_tlb = 0,
            no_translation = 0, translation_changes = 0, tlb_debug = 0\<rparr>"

text \<open>Some content of the uninitialised local \<^verbatim>\<open>tnew\<close>, for the examples.\<close>

definition junk :: tlbe where
  "junk = \<lparr>ea = 0xDEAD, ra = 0xBEEF, size_tlbe = 3, flags = 0xFF, hit_count = 7, miss_count = 9, valid = False\<rparr>"

text \<open>
  A store with all 256 slots in use: slot \<open>i\<close> maps the 4K page at \<open>4096 * i\<close> to
  itself, with zero counters.
\<close>

definition page :: "nat \<Rightarrow> tlbe" where
  "page i = \<lparr>ea = 4096 * of_nat i, ra = 4096 * of_nat i, size_tlbe = 4096, flags = 0,
              hit_count = 0, miss_count = 0, valid = True\<rparr>"

definition full_store :: globals where
  "full_store = boot\<lparr>tlb := map page [0..<256], next_tlb := 256\<rparr>"

text \<open>
  The first \<open>k\<close> of these pages in the first \<open>k\<close> slots: the stores on the way to the
  full one.
\<close>

definition store :: "nat \<Rightarrow> globals" where
  "store k = boot\<lparr>tlb := map page [0..<k] @ replicate (256 - k) zero_tlbe, next_tlb := of_nat k\<rparr>"

section \<open>The checks and the scan\<close>

lemma tlb_entry_validate_iff: "tlb_entry_validate t = Inr () \<longleftrightarrow> entry_ok t"
  by (simp add: tlb_entry_validate_def tlb_pagesize_validate_def tlb_flags_validate_def
      tlb_mask_offset_def entry_ok_def Let_def)

lemma tlb_entry_validate_Inr: "tlb_entry_validate t = Inr u \<longleftrightarrow> entry_ok t"
  using tlb_entry_validate_iff by simp

lemma tlb_match_ok: "entry_ok t \<Longrightarrow> tlb_match va fl t = Inr (hits va fl t)"
  by (auto simp: tlb_match_def hits_def tlb_entry_validate_iff [symmetric] not_less not_le)

lemma tlb_entry_validate_bad: "\<not> entry_ok t \<Longrightarrow> \<exists>e. tlb_entry_validate t = Inl e"
  using tlb_entry_validate_iff [of t] by (cases "tlb_entry_validate t") auto

lemma tlb_match_bad: "\<not> entry_ok t \<Longrightarrow> \<exists>e. tlb_match va fl t = Inl e"
  using tlb_entry_validate_bad [of t] by (auto simp: tlb_match_def)

lemma tlb_match_Inr: "tlb_match va fl t = Inr m \<longleftrightarrow> entry_ok t \<and> m = hits va fl t"
proof (cases "entry_ok t")
  case True
  then show ?thesis by (auto simp: tlb_match_ok)
next
  case False
  then show ?thesis using tlb_match_bad [of t va fl] by auto
qed

lemma tlb_at_Some: "tlb_at ts i = Some t \<longleftrightarrow> 0 \<le> i \<and> i < 256 \<and> i < int (length ts) \<and> t = ts ! nat i"
  by (auto simp: tlb_at_def TLB_SIZE_def)

lemma tlb_get_index_from_cases:
  "tlb_get_index_from va fl i s = Inr (r, s') \<Longrightarrow>
     (r = - 1 \<and> s' = s \<and> (\<forall>j. i \<le> j \<and> j < sint (next_tlb s) \<longrightarrow> entry_ok (tlb s ! nat j) \<and> \<not> hits va fl (tlb s ! nat j))) \<or>
     (i \<le> r \<and> r < sint (next_tlb s) \<and> 0 \<le> r \<and> r < 256 \<and> r < int (length (tlb s)) \<and>
      entry_ok (tlb s ! nat r) \<and> hits va fl (tlb s ! nat r) \<and>
      (\<forall>j. i \<le> j \<and> j < r \<longrightarrow> entry_ok (tlb s ! nat j) \<and> \<not> hits va fl (tlb s ! nat j)) \<and>
      s' = s\<lparr>tlb := (tlb s)[nat r := (tlb s ! nat r)\<lparr>hit_count := hit_count (tlb s ! nat r) + 1\<rparr>]\<rparr>)"
proof (induction va fl i s rule: tlb_get_index_from.induct)
  case (1 va fl i s)
  show ?case
  proof (cases "i < sint (next_tlb s)")
    case False
    with "1.prems" show ?thesis
      by (subst (asm) tlb_get_index_from.simps) auto
  next
    case True
    from "1.prems" True obtain t m where t: "tlb_at (tlb s) i = Some t"
      and m: "tlb_match va fl t = Inr m"
      by (subst (asm) tlb_get_index_from.simps) (auto split: option.splits sum.splits)
    from t have ti: "0 \<le> i" "i < 256" "i < int (length (tlb s))" "t = tlb s ! nat i"
      by (simp_all add: tlb_at_Some)
    from m have ok: "entry_ok t" and mh: "m = hits va fl t"
      by (simp_all add: tlb_match_Inr)
    show ?thesis
    proof (cases m)
      case True
      with "1.prems" \<open>i < sint (next_tlb s)\<close> t m ok
      have "r = i" "s' = s\<lparr>tlb := (tlb s)[nat i := t\<lparr>hit_count := hit_count t + 1\<rparr>]\<rparr>"
        by (subst (asm) tlb_get_index_from.simps, simp add: tlb_entry_validate_iff [THEN iffD2])+
      with True ti ok mh \<open>i < sint (next_tlb s)\<close> show ?thesis by auto
    next
      case False
      with "1.prems" \<open>i < sint (next_tlb s)\<close> t m
      have rec: "tlb_get_index_from va fl (i + 1) s = Inr (r, s')"
        by (subst (asm) tlb_get_index_from.simps) simp
      have step: "\<And>j. i \<le> j \<Longrightarrow> j = i \<or> i + 1 \<le> j" by arith
      from "1.IH" [OF \<open>i < sint (next_tlb s)\<close> t m False rec] False ok mh ti
      show ?thesis
        by (auto dest: step)
    qed
  qed
qed

lemma tlb_get_index_from_next: "tlb_get_index_from va fl i s = Inr (r, s') \<Longrightarrow> next_tlb s' = next_tlb s"
  by (drule tlb_get_index_from_cases) auto

lemma tlb_get_index_from_neg:
  "tlb_get_index_from va fl i s = Inr (r, s') \<Longrightarrow> r < 0 \<Longrightarrow> r = - 1 \<and> s' = s"
  by (drule tlb_get_index_from_cases) auto

lemma tlb_get_index_from_none:
  "0 \<le> i \<Longrightarrow> sint (next_tlb s) \<le> 256 \<Longrightarrow> sint (next_tlb s) \<le> int (length (tlb s)) \<Longrightarrow>
   (\<And>j. i \<le> j \<Longrightarrow> j < sint (next_tlb s) \<Longrightarrow> entry_ok (tlb s ! nat j) \<and> \<not> hits va fl (tlb s ! nat j)) \<Longrightarrow>
   tlb_get_index_from va fl i s = Inr (- 1, s)"
proof (induction va fl i s rule: tlb_get_index_from.induct)
  case (1 va fl i s)
  show ?case
  proof (cases "i < sint (next_tlb s)")
    case False
    then show ?thesis by (subst tlb_get_index_from.simps) simp
  next
    case True
    with "1.prems" have t: "tlb_at (tlb s) i = Some (tlb s ! nat i)"
      by (simp add: tlb_at_Some)
    from "1.prems"(4) [of i] True have ok: "entry_ok (tlb s ! nat i)" and nh: "\<not> hits va fl (tlb s ! nat i)"
      by simp_all
    from ok nh have m: "tlb_match va fl (tlb s ! nat i) = Inr False"
      by (simp add: tlb_match_ok)
    have "tlb_get_index_from va fl (i + 1) s = Inr (- 1, s)"
      using "1.IH" [OF True t m] "1.prems" by simp
    with True t m show ?thesis
      by (subst tlb_get_index_from.simps) simp
  qed
qed

lemma tlb_get_index_from_some:
  "0 \<le> i \<Longrightarrow> i \<le> k \<Longrightarrow> k < sint (next_tlb s) \<Longrightarrow> sint (next_tlb s) \<le> 256 \<Longrightarrow>
   sint (next_tlb s) \<le> int (length (tlb s)) \<Longrightarrow>
   entry_ok (tlb s ! nat k) \<Longrightarrow> hits va fl (tlb s ! nat k) \<Longrightarrow>
   (\<And>j. i \<le> j \<Longrightarrow> j < k \<Longrightarrow> entry_ok (tlb s ! nat j) \<and> \<not> hits va fl (tlb s ! nat j)) \<Longrightarrow>
   tlb_get_index_from va fl i s =
     Inr (k, s\<lparr>tlb := (tlb s)[nat k := (tlb s ! nat k)\<lparr>hit_count := hit_count (tlb s ! nat k) + 1\<rparr>]\<rparr>)"
proof (induction va fl i s rule: tlb_get_index_from.induct)
  case (1 va fl i s)
  from "1.prems" have lt: "i < sint (next_tlb s)" by simp
  with "1.prems" have t: "tlb_at (tlb s) i = Some (tlb s ! nat i)"
    by (simp add: tlb_at_Some)
  show ?case
  proof (cases "i = k")
    case True
    with "1.prems" have m: "tlb_match va fl (tlb s ! nat i) = Inr True"
      by (simp add: tlb_match_ok)
    from True "1.prems" have v: "tlb_entry_validate (tlb s ! nat i) = Inr ()"
      by (simp add: tlb_entry_validate_iff)
    from lt t m v True show ?thesis
      by (subst tlb_get_index_from.simps) simp
  next
    case False
    with "1.prems" have ik: "i < k" by simp
    from "1.prems"(8) [of i] ik have m: "tlb_match va fl (tlb s ! nat i) = Inr False"
      by (simp add: tlb_match_ok)
    have "tlb_get_index_from va fl (i + 1) s =
       Inr (k, s\<lparr>tlb := (tlb s)[nat k := (tlb s ! nat k)\<lparr>hit_count := hit_count (tlb s ! nat k) + 1\<rparr>]\<rparr>)"
      using "1.IH" [OF lt t m] "1.prems" ik by simp
    with lt t m show ?thesis
      by (subst tlb_get_index_from.simps) simp
  qed
qed

lemma tlb_validate_overlaps_Inr: "tlb_validate_overlaps i s = Inr s' \<Longrightarrow> s' = s"
proof (induction i s rule: tlb_validate_overlaps.induct)
  case (1 i s)
  show ?case
  proof (cases "i < sint (next_tlb s)")
    case False
    with "1.prems" show ?thesis
      by (subst (asm) tlb_validate_overlaps.simps) simp
  next
    case True
    from "1.prems" True obtain t s1 t1 s2 where t: "tlb_at (tlb s) i = Some t"
      and g1: "tlb_get_index_from (ea t) (flags t) (i + 1) s = Inr (- 1, s1)"
      and t1: "tlb_at (tlb s1) i = Some t1"
      and g2: "tlb_get_index_from (ea t1 + size_tlbe t1 - 1) (flags t1) (i + 1) s1 = Inr (- 1, s2)"
      and rec: "tlb_validate_overlaps (i + 1) s2 = Inr s'"
      by (subst (asm) tlb_validate_overlaps.simps)
         (auto split: option.splits sum.splits if_splits)
    from g1 have "s1 = s" by (auto dest: tlb_get_index_from_neg)
    moreover from g2 have "s2 = s1" by (auto dest: tlb_get_index_from_neg)
    moreover have "s' = s2"
      by (rule "1.IH" [OF True t g1 refl _ t1 g2 refl _ rec]) simp_all
    ultimately show ?thesis by simp
  qed
qed

lemma tlb_validate_Inr: "tlb_validate s = Inr s' \<Longrightarrow> s' = s"
  by (auto simp: tlb_validate_def split: if_splits sum.splits dest: tlb_validate_overlaps_Inr)

lemma tlb_validate_holes_iff:
  "length ts = 256 \<Longrightarrow> 0 \<le> i \<Longrightarrow>
   tlb_validate_holes i vl ts = Inr () \<longleftrightarrow>
     (\<forall>j. i \<le> j \<and> j < 256 \<and> valid (ts ! nat j) \<longrightarrow> (if j = i then vl else valid (ts ! nat (j - 1))))"
proof (induction i vl ts rule: tlb_validate_holes.induct)
  case (1 i vl ts)
  show ?case
  proof (cases "i < 256")
    case False
    then show ?thesis
      by (subst tlb_validate_holes.simps) (auto simp: TLB_SIZE_def)
  next
    case True
    with "1.prems" have t: "tlb_at ts i = Some (ts ! nat i)"
      by (simp add: tlb_at_Some)
    show ?thesis
    proof (cases "\<not> valid (ts ! nat i) \<or> vl")
      case False
      with True t have "tlb_validate_holes i vl ts = Inl Hole"
        by (subst tlb_validate_holes.simps) (simp add: TLB_SIZE_def)
      with False True "1.prems" show ?thesis by auto
    next
      case ok: True
      from True have lt: "i < TLB_SIZE" by (simp add: TLB_SIZE_def)
      have eq: "tlb_validate_holes i vl ts = tlb_validate_holes (i + 1) (valid (ts ! nat i)) ts"
        using lt t ok by (subst tlb_validate_holes.simps) auto
      have IH: "tlb_validate_holes (i + 1) (valid (ts ! nat i)) ts = Inr () \<longleftrightarrow>
        (\<forall>j. i + 1 \<le> j \<and> j < 256 \<and> valid (ts ! nat j) \<longrightarrow>
           (if j = i + 1 then valid (ts ! nat i) else valid (ts ! nat (j - 1))))"
        using "1.IH" [OF lt t ok] "1.prems" by simp
      have A: "(if j = i + 1 then valid (ts ! nat i) else valid (ts ! nat (j - 1))) = valid (ts ! nat (j - 1))" for j
        by simp
      have B: "(\<forall>j. i \<le> j \<and> j < 256 \<and> valid (ts ! nat j) \<longrightarrow> (if j = i then vl else valid (ts ! nat (j - 1))))
          \<longleftrightarrow> (\<forall>j. i + 1 \<le> j \<and> j < 256 \<and> valid (ts ! nat j) \<longrightarrow> valid (ts ! nat (j - 1)))"
        (is "?L \<longleftrightarrow> ?R")
      proof
        assume l: ?L
        show ?R
        proof (intro allI impI)
          fix j assume j: "i + 1 \<le> j \<and> j < 256 \<and> valid (ts ! nat j)"
          then have "i \<le> j \<and> j < 256 \<and> valid (ts ! nat j)" and "j \<noteq> i" by simp_all
          with l show "valid (ts ! nat (j - 1))" by metis
        qed
      next
        assume r: ?R
        show ?L
        proof (intro allI impI)
          fix j assume j: "i \<le> j \<and> j < 256 \<and> valid (ts ! nat j)"
          show "if j = i then vl else valid (ts ! nat (j - 1))"
          proof (cases "j = i")
            case True
            with j ok show ?thesis by simp
          next
            case False
            with j have "i + 1 \<le> j \<and> j < 256 \<and> valid (ts ! nat j)" by simp
            with r False show ?thesis by simp
          qed
        qed
      qed
      show ?thesis
        unfolding eq IH A B ..
    qed
  qed
qed

lemma tlb_validate_overlaps_done: "\<not> i < sint (next_tlb s) \<Longrightarrow> tlb_validate_overlaps i s = Inr s"
  by (subst tlb_validate_overlaps.simps) simp

lemma tlb_init_eq: "tlb_init s = Inr (cleared s)"
proof -
  have "tlb_validate_holes 0 True (replicate 256 zero_tlbe) = Inr ()"
    by (subst tlb_validate_holes_iff) (auto simp: zero_tlbe_def)
  then show ?thesis
    by (simp add: tlb_init_def cleared_def tlb_validate_def TLB_SIZE_def tlb_validate_overlaps_done)
qed

lemma tlb_inv_cleared: "tlb_inv (cleared s)"
  by (simp add: tlb_inv_def cleared_def TLB_SIZE_def zero_tlbe_def)

lemma sint_next_inc: "0 \<le> sint (n :: c_int) \<Longrightarrow> sint n \<le> 256 \<Longrightarrow> sint (n + 1) = sint n + 1"
  by (simp add: sint_word_ariths signed_take_bit_int_eq_self)

lemma tlb_inv_same_shape:
  assumes "tlb_inv s" and "k < 256" and "valid t' = valid (tlb s ! k)" and "valid t' \<Longrightarrow> entry_ok t'"
  shows "tlb_inv (s\<lparr>tlb := (tlb s)[k := t']\<rparr>)"
  using assms by (auto simp: tlb_inv_def nth_list_update)

lemma tlb_inv_append:
  assumes "tlb_inv s" and "sint (next_tlb s) < 256" and "entry_ok t'"
  shows "tlb_inv (s\<lparr>tlb := (tlb s)[nat (sint (next_tlb s)) := t'], next_tlb := next_tlb s + 1\<rparr>)"
proof -
  from assms have "sint (next_tlb s + 1) = sint (next_tlb s) + 1"
    by (simp add: tlb_inv_def sint_next_inc)
  with assms show ?thesis
    by (auto simp: tlb_inv_def nth_list_update entry_ok_def)
qed

lemma tlb_inv_frame:
  "tlb_inv (s\<lparr>translations_tlb := a\<rparr>) = tlb_inv s"
  "tlb_inv (s\<lparr>no_translation := b\<rparr>) = tlb_inv s"
  "tlb_inv (s\<lparr>translation_changes := c\<rparr>) = tlb_inv s"
  "tlb_inv (s\<lparr>tlb_debug := d\<rparr>) = tlb_inv s"
  by (simp_all add: tlb_inv_def)

lemma entry_ok_counts [simp]:
  "entry_ok (t\<lparr>hit_count := h\<rparr>) = entry_ok t"
  "entry_ok (t\<lparr>miss_count := m\<rparr>) = entry_ok t"
  by (simp_all add: entry_ok_def)

lemma tlb_inv_valid: "tlb_inv s \<Longrightarrow> k < 256 \<Longrightarrow> valid (tlb s ! k) \<Longrightarrow> entry_ok (tlb s ! k)"
  by (simp add: tlb_inv_def)

lemma tlb_inv_hit:
  assumes "tlb_inv s" and "k < 256"
  shows "tlb_inv (s\<lparr>tlb := (tlb s)[k := (tlb s ! k)\<lparr>hit_count := h\<rparr>]\<rparr>)"
  using assms by (intro tlb_inv_same_shape) (auto dest: tlb_inv_valid)

lemma tlb_inv_miss:
  assumes "tlb_inv s" and "k < 256"
  shows "tlb_inv (s\<lparr>tlb := (tlb s)[k := (tlb s ! k)\<lparr>miss_count := h\<rparr>]\<rparr>)"
  using assms by (intro tlb_inv_same_shape) (auto dest: tlb_inv_valid)

lemma tlb_get_index_inv:
  assumes "tlb_get_index va fl s = Inr (r, s')" and "tlb_inv s"
  shows "tlb_inv s'"
proof -
  have c: "(r = - 1 \<and> s' = s) \<or>
     (0 \<le> r \<and> r < 256 \<and>
      s' = s\<lparr>tlb := (tlb s)[nat r := (tlb s ! nat r)\<lparr>hit_count := hit_count (tlb s ! nat r) + 1\<rparr>]\<rparr>)"
    using tlb_get_index_from_cases [OF assms(1) [unfolded tlb_get_index_def]] by auto
  then show ?thesis
  proof
    assume "r = - 1 \<and> s' = s"
    with assms(2) show ?thesis by simp
  next
    assume h: "0 \<le> r \<and> r < 256 \<and>
      s' = s\<lparr>tlb := (tlb s)[nat r := (tlb s ! nat r)\<lparr>hit_count := hit_count (tlb s ! nat r) + 1\<rparr>]\<rparr>"
    then have "nat r < 256" by linarith
    from tlb_inv_hit [OF assms(2) this] h show ?thesis by simp
  qed
qed

lemma tlb_ra_get_inv:
  assumes "tlb_ra_get va fl ra_ptr pagesize_ptr s = Inr (r, s')" and "tlb_inv s"
  shows "tlb_inv s'"
proof -
  from assms(1) obtain idx s1 where g: "tlb_get_index va fl (s\<lparr>translations_tlb := translations_tlb s + 1\<rparr>) = Inr (idx, s1)"
    and s': "s' = s1 \<or> s' = s1\<lparr>no_translation := no_translation s1 + 1\<rparr>"
    by (auto simp: tlb_ra_get_def Let_def split: sum.splits if_splits option.splits)
  from g assms(2) have "tlb_inv s1"
    by (auto dest: tlb_get_index_inv simp: tlb_inv_frame)
  with s' show ?thesis by (auto simp: tlb_inv_frame)
qed

lemma entry_ok_tnew:
  assumes "tlb_pagesize_validate pagesize = Inr ()" and "tlb_flags_validate fl = Inr ()"
  shows "entry_ok (tnew_of va fl pa pagesize stack)"
proof -
  have "(x AND NOT m) AND m = 0" for x m :: u64
    by (simp add: and.assoc)
  with assms show ?thesis
    by (auto simp: entry_ok_def tnew_of_def tlb_pagesize_validate_def tlb_flags_validate_def
        split: if_splits)
qed

lemma tlb_ra_set_unfold:
  "tlb_ra_set va fl pa pagesize stack s =
     (case tlb_pagesize_validate pagesize of
        Inl e \<Rightarrow> Inl e
      | Inr _ \<Rightarrow>
     (case tlb_flags_validate fl of
        Inl e \<Rightarrow> Inl e
      | Inr _ \<Rightarrow>
     (case tlb_get_index va fl s of
        Inl e \<Rightarrow> Inl e
      | Inr (found, s1) \<Rightarrow>
          if found < 0 then
            (if sint (next_tlb s1 + 1) \<le> 256
             then set_slot (tnew_of va fl pa pagesize stack) (sint (next_tlb s1))
                    (s1\<lparr>next_tlb := next_tlb s1 + 1, tlb_debug := 0\<rparr>)
             else Inl Next_exceeds_size)
          else set_slot (tnew_of va fl pa pagesize stack) found (s1\<lparr>tlb_debug := 0\<rparr>))))"
  by (simp add: tlb_ra_set_def set_slot_def tnew_of_def Let_def TLB_SIZE_def tlb_mask_rpn_def
      tlb_mask_offset_def split: sum.splits prod.splits option.splits)

lemma tlb_equal_iff:
  "tlb_equal t1 t2 \<longleftrightarrow> ea t1 = ea t2 \<and> ra t1 = ra t2 \<and> size_tlbe t1 = size_tlbe t2 \<and>
     flags t1 = flags t2 \<and> valid t1 = valid t2"
  by (simp add: tlb_equal_def)

lemma set_slot_inv_found:
  assumes "set_slot tnew index s = Inr s'" and "tlb_inv s" and "0 \<le> index" and "index < sint (next_tlb s)"
    and "entry_ok tnew"
  shows "tlb_inv s'"
proof -
  from assms(2-4) have k: "nat index < 256" and len: "length (tlb s) = 256"
    by (auto simp: tlb_inv_def)
  with assms(3) have t: "tlb_at (tlb s) index = Some (tlb s ! nat index)"
    by (simp add: tlb_at_Some)
  from assms(2-4) k have v: "valid (tlb s ! nat index)"
    by (simp add: tlb_inv_def)
  show ?thesis
  proof (cases "tlb_equal tnew (tlb s ! nat index)")
    case True
    with assms(1) t have "s' = s\<lparr>tlb := (tlb s)[nat index := (tlb s ! nat index)\<lparr>miss_count := miss_count (tlb s ! nat index) + 1\<rparr>]\<rparr>"
      by (simp add: set_slot_def)
    with tlb_inv_miss [OF assms(2) k] show ?thesis by simp
  next
    case False
    with assms(1) t v
    have "s' = s\<lparr>translation_changes := translation_changes s + 1, tlb := (tlb s)[nat index := tnew]\<rparr>"
      by (auto simp: set_slot_def dest: tlb_validate_Inr)
    moreover have "tlb_inv (s\<lparr>tlb := (tlb s)[nat index := tnew]\<rparr>)"
      using assms(2) k v assms(5) by (intro tlb_inv_same_shape) (auto simp: entry_ok_def)
    ultimately show ?thesis by (simp add: tlb_inv_def)
  qed
qed

lemma set_slot_inv_append:
  assumes "set_slot tnew (sint (next_tlb s)) (s\<lparr>next_tlb := next_tlb s + 1, tlb_debug := d\<rparr>) = Inr s'"
    and "tlb_inv s" and "sint (next_tlb s + 1) \<le> 256" and "entry_ok tnew"
  shows "tlb_inv s'"
proof -
  let ?n = "sint (next_tlb s)"
  from assms(2) have n0: "0 \<le> ?n" "?n \<le> 256" and len: "length (tlb s) = 256"
    by (auto simp: tlb_inv_def)
  with assms(3) have n: "?n < 256"
    by (simp add: sint_next_inc)
  with n0 len have t: "tlb_at (tlb s) ?n = Some (tlb s ! nat ?n)"
    by (simp add: tlb_at_Some)
  from assms(2) n n0 have v: "\<not> valid (tlb s ! nat ?n)"
    by (simp add: tlb_inv_def)
  from assms(4) have "valid tnew" by (simp add: entry_ok_def)
  with v have ne: "\<not> tlb_equal tnew (tlb s ! nat ?n)"
    by (auto simp: tlb_equal_iff)
  from assms(1) t v ne
  have "s' = s\<lparr>next_tlb := next_tlb s + 1, tlb_debug := d, tlb := (tlb s)[nat ?n := tnew]\<rparr>"
    by (auto simp: set_slot_def dest: tlb_validate_Inr)
  moreover from tlb_inv_append [OF assms(2) n assms(4)]
  have "tlb_inv (s\<lparr>tlb := (tlb s)[nat ?n := tnew], next_tlb := next_tlb s + 1\<rparr>)" .
  ultimately show ?thesis by (simp add: tlb_inv_def)
qed

lemma tlb_ra_set_inv:
  assumes "tlb_ra_set va fl pa pagesize stack s = Inr s'" and "tlb_inv s"
  shows "tlb_inv s'"
proof -
  from assms(1) obtain found s1 where p: "tlb_pagesize_validate pagesize = Inr ()"
    and f: "tlb_flags_validate fl = Inr ()"
    and g: "tlb_get_index va fl s = Inr (found, s1)"
    by (auto simp: tlb_ra_set_unfold split: sum.splits)
  from p f have ok: "entry_ok (tnew_of va fl pa pagesize stack)"
    by (rule entry_ok_tnew)
  from g assms(2) have inv1: "tlb_inv s1"
    by (rule tlb_get_index_inv)
  show ?thesis
  proof (cases "found < 0")
    case True
    with assms(1) p f g have le: "sint (next_tlb s1 + 1) \<le> 256"
      and ss: "set_slot (tnew_of va fl pa pagesize stack) (sint (next_tlb s1))
                 (s1\<lparr>next_tlb := next_tlb s1 + 1, tlb_debug := 0\<rparr>) = Inr s'"
      by (auto simp: tlb_ra_set_unfold split: if_splits)
    from ss inv1 le ok show ?thesis by (rule set_slot_inv_append)
  next
    case False
    with assms(1) p f g
    have ss: "set_slot (tnew_of va fl pa pagesize stack) found (s1\<lparr>tlb_debug := 0\<rparr>) = Inr s'"
      by (auto simp: tlb_ra_set_unfold)
    from g False have "found < sint (next_tlb s)"
      using tlb_get_index_from_cases [OF g [unfolded tlb_get_index_def]] by auto
    with g have lt: "found < sint (next_tlb (s1\<lparr>tlb_debug := 0\<rparr>))"
      by (auto simp: tlb_get_index_def dest: tlb_get_index_from_next)
    from inv1 have "tlb_inv (s1\<lparr>tlb_debug := 0\<rparr>)" by (simp add: tlb_inv_frame)
    with ss show ?thesis using False lt ok by (intro set_slot_inv_found [OF ss]) auto
  qed
qed

lemma reachable_inv: "reachable s \<Longrightarrow> tlb_inv s"
proof (induction rule: reachable.induct)
  case (init s0 s)
  then show ?case using tlb_inv_cleared [of s0] by (auto simp: tlb_init_eq)
next
  case (get s va fl ra_ptr pagesize_ptr r s')
  then show ?case by (auto dest: tlb_ra_get_inv)
next
  case (set s va fl pa pagesize stack s')
  then show ?case by (auto dest: tlb_ra_set_inv)
next
  case (exit s s')
  then show ?case by (auto simp: tlb_exit_def dest: tlb_validate_Inr)
next
  case (debug s d)
  then show ?case by (simp add: tlb_inv_frame)
qed

section \<open>When the validation passes\<close>

lemma holes_ok:
  "length ts = 256 \<Longrightarrow> (\<And>j. 0 < j \<Longrightarrow> j < 256 \<Longrightarrow> valid (ts ! j) \<Longrightarrow> valid (ts ! (j - 1))) \<Longrightarrow>
   tlb_validate_holes 0 True ts = Inr ()"
proof -
  assume len: "length ts = 256" and p: "\<And>j. 0 < j \<Longrightarrow> j < 256 \<Longrightarrow> valid (ts ! j) \<Longrightarrow> valid (ts ! (j - 1))"
  have "valid (ts ! nat (j - 1))" if "0 \<le> j" "j < 256" "valid (ts ! nat j)" "j \<noteq> 0" for j :: int
  proof -
    from that have "0 < nat j" "nat j < 256" by simp_all
    from p [OF this that(3)] that show ?thesis by (simp add: nat_diff_distrib)
  qed
  with len show ?thesis
    by (subst tlb_validate_holes_iff) auto
qed

lemma tlb_validate_overlaps_ok:
  assumes "tlb_inv s" and "endpoints_free s" and "0 \<le> i"
  shows "tlb_validate_overlaps i s = Inr s"
  using assms
proof (induction i s rule: tlb_validate_overlaps.induct)
  case (1 i s)
  show ?case
  proof (cases "i < sint (next_tlb s)")
    case False
    then show ?thesis by (rule tlb_validate_overlaps_done)
  next
    case True
    let ?t = "tlb s ! nat i"
    from "1.prems" True have t: "tlb_at (tlb s) i = Some ?t"
      by (simp add: tlb_at_Some tlb_inv_def)
    from "1.prems"(1) have b: "sint (next_tlb s) \<le> 256" "sint (next_tlb s) \<le> int (length (tlb s))"
      by (simp_all add: tlb_inv_def)
    have later: "entry_ok (tlb s ! nat k) \<and> \<not> hits (ea ?t) (flags ?t) (tlb s ! nat k)
        \<and> \<not> hits (ea ?t + size_tlbe ?t - 1) (flags ?t) (tlb s ! nat k)"
      if "i + 1 \<le> k" "k < sint (next_tlb s)" for k
    proof -
      from that "1.prems"(1,3) have "nat k < 256" "valid (tlb s ! nat k)"
        by (auto simp: tlb_inv_def)
      with "1.prems"(1) have "entry_ok (tlb s ! nat k)" by (intro tlb_inv_valid)
      moreover from "1.prems"(3) that have "0 \<le> i \<and> i < k \<and> k < sint (next_tlb s)"
        by simp
      with "1.prems"(2)
      have "\<not> hits (ea ?t) (flags ?t) (tlb s ! nat k) \<and>
            \<not> hits (ea ?t + size_tlbe ?t - 1) (flags ?t) (tlb s ! nat k)"
        unfolding endpoints_free_def by blast
      ultimately show ?thesis by simp
    qed
    from "1.prems"(3) b later
    have g1: "tlb_get_index_from (ea ?t) (flags ?t) (i + 1) s = Inr (- 1, s)"
      by (intro tlb_get_index_from_none) simp_all
    from "1.prems"(3) b later
    have g2: "tlb_get_index_from (ea ?t + size_tlbe ?t - 1) (flags ?t) (i + 1) s = Inr (- 1, s)"
      by (intro tlb_get_index_from_none) simp_all
    have "tlb_validate_overlaps (i + 1) s = Inr s"
      using "1.prems" by (intro "1.IH" [OF True t g1 refl _ t g2 refl]) simp_all
    with True t g1 g2 show ?thesis
      by (subst tlb_validate_overlaps.simps) simp
  qed
qed

lemma tlb_validate_ok:
  assumes "tlb_inv s" and "endpoints_free s"
  shows "tlb_validate s = Inr s"
proof -
  from assms have o: "tlb_validate_overlaps 0 s = Inr s"
    by (intro tlb_validate_overlaps_ok) simp_all
  have h: "tlb_validate_holes 0 True (tlb s) = Inr ()"
  proof (rule holes_ok)
    from assms(1) show "length (tlb s) = 256" by (simp add: tlb_inv_def)
  next
    fix j :: nat assume "0 < j" "j < 256" "valid (tlb s ! j)"
    with assms(1) show "valid (tlb s ! (j - 1))" by (auto simp: tlb_inv_def)
  qed
  from assms(1) have "sint (next_tlb s) \<le> TLB_SIZE" by (simp add: tlb_inv_def TLB_SIZE_def)
  with o h show ?thesis by (simp add: tlb_validate_def)
qed

section \<open>Concrete runs\<close>

lemmas eval_simps = tlb_ra_set_unfold tlb_get_index_def tlb_get_index_from.simps set_slot_def
  tlb_validate_def tlb_validate_overlaps.simps tlb_at_def cleared_def TLB_SIZE_def
  tlb_pagesize_validate_def tlb_flags_validate_def tlb_entry_validate_def tlb_match_def
  tlb_equal_def tnew_of_def zero_tlbe_def tlb_mask_offset_def Let_def

lemma set_first:
  "tlb_ra_set 0x1000 0 pa 4096 st (cleared g) =
   Inr ((cleared g)\<lparr>tlb := (tlb (cleared g))[0 := tnew_of 0x1000 0 pa 4096 st], next_tlb := 1, tlb_debug := 0\<rparr>)"
  apply (simp add: eval_simps)
  apply (subst holes_ok)
    apply (auto simp: nth_list_update list_update_swap [of "Suc 0" 0] split: if_splits)
  done

lemma reachable_first:
  "reachable ((cleared g)\<lparr>tlb := (tlb (cleared g))[0 := tnew_of 0x1000 0 0x2000 4096 st], next_tlb := 1, tlb_debug := 0\<rparr>)"
  by (rule reachable.set [OF reachable.init [OF tlb_init_eq] set_first])

lemma set_replace:
  "tlb_ra_set 0x1000 0 0x3000 4096 st'
     ((cleared g)\<lparr>tlb := (tlb (cleared g))[0 := tnew_of 0x1000 0 0x2000 4096 st], next_tlb := 1, tlb_debug := 0\<rparr>) =
   Inr ((cleared g)\<lparr>tlb := (tlb (cleared g))[0 := tnew_of 0x1000 0 0x3000 4096 st'], next_tlb := 1,
         translation_changes := 1, tlb_debug := 0\<rparr>)"
  apply (simp add: eval_simps)
  apply (subst holes_ok)
    apply (auto simp: nth_list_update list_update_swap [of "Suc 0" 0] split: if_splits)
  done

lemma get_after_replace:
  "tlb_ra_get 0x1005 0 True True
     ((cleared g)\<lparr>tlb := (tlb (cleared g))[0 := tnew_of 0x1000 0 0x3000 4096 st'], next_tlb := 1,
         translation_changes := 1, tlb_debug := 0\<rparr>) =
   Inr (Some (0x3005, 4096),
     (cleared g)\<lparr>tlb := (tlb (cleared g))[0 := (tnew_of 0x1000 0 0x3000 4096 st')\<lparr>hit_count := hit_count st' + 1\<rparr>],
        next_tlb := 1, translations_tlb := 1, translation_changes := 1, tlb_debug := 0\<rparr>)"
  by (simp add: tlb_ra_get_def tlb_translate_def tlb_mask_rpn_def eval_simps)

lemma get_after_first:
  "tlb_ra_get 0x1005 0 True True
     ((cleared g)\<lparr>tlb := (tlb (cleared g))[0 := tnew_of 0x1000 0 0x2000 4096 st], next_tlb := 1, tlb_debug := 0\<rparr>) =
   Inr (Some (0x2005, 4096),
     (cleared g)\<lparr>tlb := (tlb (cleared g))[0 := (tnew_of 0x1000 0 0x2000 4096 st)\<lparr>hit_count := hit_count st + 1\<rparr>],
        next_tlb := 1, translations_tlb := 1, tlb_debug := 0\<rparr>)"
  by (simp add: tlb_ra_get_def tlb_translate_def tlb_mask_rpn_def eval_simps)

text \<open>
  The page that ends at \<open>2 ^ 64\<close>: set once, looked up, and set again with the same
  arguments.
\<close>

lemma last_page_1:
  "tlb_ra_set 0xFFFFFFFFFFFFF000 0 0x5000 4096 st (cleared g) =
   Inr ((cleared g)\<lparr>tlb := (tlb (cleared g))[0 := tnew_of 0xFFFFFFFFFFFFF000 0 0x5000 4096 st],
          next_tlb := 1, tlb_debug := 0\<rparr>)"
  apply (simp add: eval_simps)
  apply (subst holes_ok)
    apply (auto simp: nth_list_update list_update_swap [of "Suc 0" 0] split: if_splits)
  done

lemma last_page_2:
  "tlb_ra_set 0xFFFFFFFFFFFFF000 0 0x5000 4096 st'
     ((cleared g)\<lparr>tlb := (tlb (cleared g))[0 := tnew_of 0xFFFFFFFFFFFFF000 0 0x5000 4096 st],
          next_tlb := 1, tlb_debug := 0\<rparr>) =
   Inr ((cleared g)\<lparr>tlb := (tlb (cleared g))[0 := tnew_of 0xFFFFFFFFFFFFF000 0 0x5000 4096 st,
            1 := tnew_of 0xFFFFFFFFFFFFF000 0 0x5000 4096 st'],
          next_tlb := 2, tlb_debug := 0\<rparr>)"
  apply (simp add: eval_simps)
  apply (subst holes_ok)
    apply (auto simp: nth_list_update list_update_swap [of "Suc 0" 0] split: if_splits)
  done

lemma last_page_get:
  "tlb_ra_get 0xFFFFFFFFFFFFF005 0 True True
     ((cleared g)\<lparr>tlb := (tlb (cleared g))[0 := tnew_of 0xFFFFFFFFFFFFF000 0 0x5000 4096 st],
          next_tlb := 1, tlb_debug := 0\<rparr>) =
   Inr (None, (cleared g)\<lparr>tlb := (tlb (cleared g))[0 := tnew_of 0xFFFFFFFFFFFFF000 0 0x5000 4096 st],
          next_tlb := 1, translations_tlb := 1, no_translation := 1, tlb_debug := 0\<rparr>)"
  by (simp add: tlb_ra_get_def tlb_translate_def tlb_mask_rpn_def eval_simps)

text \<open>The run that leaves two overlapping entries.\<close>

lemma grow_1:
  "tlb_ra_set 0 0 0 4096 st (cleared g) =
   Inr ((cleared g)\<lparr>tlb := (tlb (cleared g))[0 := tnew_of 0 0 0 4096 st], next_tlb := 1, tlb_debug := 0\<rparr>)"
  apply (simp add: eval_simps)
  apply (subst holes_ok)
    apply (auto simp: nth_list_update list_update_swap [of "Suc 0" 0] split: if_splits)
  done

lemma grow_2:
  "tlb_ra_set 0x1000 0 0 4096 st
     ((cleared g)\<lparr>tlb := (tlb (cleared g))[0 := tnew_of 0 0 0 4096 st], next_tlb := 1, tlb_debug := 0\<rparr>) =
   Inr ((cleared g)\<lparr>tlb := (tlb (cleared g))[0 := tnew_of 0 0 0 4096 st, 1 := tnew_of 0x1000 0 0 4096 st],
          next_tlb := 2, tlb_debug := 0\<rparr>)"
  apply (simp add: eval_simps)
  apply (subst holes_ok)
    apply (auto simp: nth_list_update list_update_swap [of "Suc 0" 0] split: if_splits)
  done

lemma grow_3:
  "tlb_ra_set 0 0 0 65536 st
     ((cleared g)\<lparr>tlb := (tlb (cleared g))[0 := tnew_of 0 0 0 4096 st, 1 := tnew_of 0x1000 0 0 4096 st],
          next_tlb := 2, tlb_debug := 0\<rparr>) =
   Inr ((cleared g)\<lparr>tlb := (tlb (cleared g))[0 := tnew_of 0 0 0 65536 st, 1 := tnew_of 0x1000 0 0 4096 st],
          next_tlb := 2, translation_changes := 1, tlb_debug := 0\<rparr>)"
  apply (simp add: eval_simps)
  apply (subst holes_ok)
    apply (auto simp: nth_list_update list_update_swap [of "Suc 0" 0] split: if_splits)
  done

section \<open>The range test\<close>

lemma hits_in_range: "hits va fl t \<Longrightarrow> in_range va t \<and> fl = flags t"
proof -
  assume h: "hits va fl t"
  then have "unat (ea t) \<le> unat va" and "unat va < unat (ea t + size_tlbe t)"
    by (simp_all add: hits_def word_le_nat_alt word_less_nat_alt)
  moreover have "unat (ea t + size_tlbe t) \<le> unat (ea t) + unat (size_tlbe t)"
    by (simp add: unat_word_ariths)
  ultimately show ?thesis using h by (simp add: in_range_def hits_def)
qed

text \<open>
  The range test of the code and the range \<open>[ea, ea + size)\<close> agree unless
  \<open>ea + size\<close> wraps around; an entry whose range reaches \<open>2 ^ 64\<close> is hit by no
  address.
\<close>

lemma hits_iff_in_range:
  assumes "unat (ea t) + unat (size_tlbe t) < 2 ^ 64"
  shows "hits va fl t \<longleftrightarrow> in_range va t \<and> fl = flags t"
proof -
  from assms have "unat (ea t + size_tlbe t) = unat (ea t) + unat (size_tlbe t)"
    by (simp add: unat_word_ariths)
  then show ?thesis
    by (auto simp: hits_def in_range_def word_le_nat_alt word_less_nat_alt)
qed

lemma wrapping_entry_never_hits:
  assumes "2 ^ 64 \<le> unat (ea t) + unat (size_tlbe t)"
  shows "\<not> hits va fl t"
proof
  assume "hits va fl t"
  then have a: "unat (ea t) \<le> unat va" and b: "unat va < unat (ea t + size_tlbe t)"
    by (simp_all add: hits_def word_le_nat_alt word_less_nat_alt)
  have "unat (size_tlbe t) < 2 ^ 64"
    using unsigned_less [of "size_tlbe t"] by simp
  moreover have "unat (ea t) < 2 ^ 64"
    using unsigned_less [of "ea t"] by simp
  ultimately have "unat (ea t + size_tlbe t) = unat (ea t) + unat (size_tlbe t) - 2 ^ 64"
    using assms by (simp add: unat_word_ariths mod_if)
  with \<open>unat (size_tlbe t) < 2 ^ 64\<close> a b show False by simp
qed

lemma hits_counts [simp]:
  "hits va fl (t\<lparr>hit_count := h\<rparr>) = hits va fl t"
  "hits va fl (t\<lparr>miss_count := m\<rparr>) = hits va fl t"
  by (simp_all add: hits_def)

lemma tlb_equal_counts [simp]:
  "tlb_equal c (t\<lparr>hit_count := h\<rparr>) = tlb_equal c t"
  "tlb_equal c (t\<lparr>miss_count := m\<rparr>) = tlb_equal c t"
  by (simp_all add: tlb_equal_iff)

lemma page_contains:
  assumes "pagesize = 4096 \<or> pagesize = 65536 \<or> pagesize = 16777216"
    and "unat (va AND NOT (pagesize - 1)) + unat pagesize < 2 ^ 64"
  shows "hits va fl (tnew_of va fl pa pagesize stack)"
proof -
  let ?m = "pagesize - 1"
  let ?a = "va AND NOT ?m" and ?b = "va AND ?m"
  have d: "?a AND ?b = 0"
    by (simp add: bit_eq_iff bit_and_iff bit_not_iff)
  have "?a + ?b = ?a OR ?b"
    by (rule disjunctive_add_eq_or [OF d])
  also have "\<dots> = va"
    by (auto simp: bit_eq_iff bit_and_iff bit_or_iff bit_not_iff)
  finally have sum: "?a + ?b = va" .
  have "?b \<le> ?m" by (rule word_and_le1)
  then have "unat ?b \<le> unat ?m" by (simp add: word_le_nat_alt)
  moreover from assms(1) have "unat ?m < unat pagesize" by auto
  ultimately have b: "unat ?b < unat pagesize" by simp
  with assms(2) have "unat (?a + ?b) = unat ?a + unat ?b"
    by (simp add: unat_word_ariths)
  with sum have "unat va = unat ?a + unat ?b" by simp
  with b have "in_range va (tnew_of va fl pa pagesize stack)"
    by (simp add: in_range_def tnew_of_def)
  moreover from assms(2)
  have "unat (ea (tnew_of va fl pa pagesize stack)) + unat (size_tlbe (tnew_of va fl pa pagesize stack)) < 2 ^ 64"
    by (simp add: tnew_of_def)
  ultimately show ?thesis
    by (simp add: hits_iff_in_range tnew_of_def)
qed

section \<open>A set leaves an entry that matches\<close>

lemma set_slot_effect:
  assumes "set_slot tnew index s = Inr s'"
  shows "0 \<le> index \<and> index < 256 \<and> index < int (length (tlb s)) \<and> next_tlb s' = next_tlb s \<and>
     (\<exists>t'. tlb s' = (tlb s)[nat index := t'] \<and>
        (t' = tnew \<or>
         tlb_equal tnew (tlb s ! nat index) \<and>
         t' = (tlb s ! nat index)\<lparr>miss_count := miss_count (tlb s ! nat index) + 1\<rparr>))"
  using assms
  by (auto simp: set_slot_def tlb_at_Some split: option.splits if_splits dest!: tlb_validate_Inr)

text \<open>
  After a set that returned, the lookup of the same address finds an entry that equals
  the candidate of the same arguments, whatever the local holds, provided the page
  does not end at \<open>2 ^ 64\<close>.
\<close>

lemma set_then_matched:
  assumes r: "tlb_ra_set va fl pa pagesize stack s = Inr s'" and inv: "tlb_inv s"
    and nowrap: "unat (va AND NOT (pagesize - 1)) + unat pagesize < 2 ^ 64"
  shows "\<exists>i s1. tlb_get_index va fl s' = Inr (i, s1) \<and> 0 \<le> i \<and>
           tlb_equal (tnew_of va fl pa pagesize stack') (tlb s' ! nat i)"
proof -
  let ?tnew = "tnew_of va fl pa pagesize stack"
  from r obtain found s1 where p: "tlb_pagesize_validate pagesize = Inr ()"
    and f: "tlb_flags_validate fl = Inr ()"
    and g: "tlb_get_index va fl s = Inr (found, s1)"
    by (auto simp: tlb_ra_set_unfold split: sum.splits)
  from p f have ok: "entry_ok ?tnew" by (rule entry_ok_tnew)
  from p have "pagesize = 4096 \<or> pagesize = 65536 \<or> pagesize = 16777216"
    by (simp add: tlb_pagesize_validate_def split: if_splits)
  from page_contains [OF this nowrap] have h: "hits va fl ?tnew" .
  have eqn: "tlb_equal (tnew_of va fl pa pagesize stack') ?tnew"
    by (simp add: tlb_equal_iff tnew_of_def)
  from r inv have inv': "tlb_inv s'" by (rule tlb_ra_set_inv)
  note c = tlb_get_index_from_cases [OF g [unfolded tlb_get_index_def]]
  have "\<exists>k t'. 0 \<le> k \<and> k < sint (next_tlb s') \<and> tlb s' ! nat k = t' \<and>
          entry_ok t' \<and> hits va fl t' \<and> tlb_equal (tnew_of va fl pa pagesize stack') t' \<and>
          (\<forall>j. 0 \<le> j \<and> j < k \<longrightarrow> entry_ok (tlb s' ! nat j) \<and> \<not> hits va fl (tlb s' ! nat j))"
  proof (cases "found < 0")
    case True
    with c have s1: "s1 = s"
      and before: "\<forall>j. 0 \<le> j \<and> j < sint (next_tlb s) \<longrightarrow>
          entry_ok (tlb s ! nat j) \<and> \<not> hits va fl (tlb s ! nat j)"
      by auto
    let ?n = "sint (next_tlb s)"
    from True r p f g s1 have le: "sint (next_tlb s + 1) \<le> 256"
      and ss: "set_slot ?tnew ?n (s\<lparr>next_tlb := next_tlb s + 1, tlb_debug := 0\<rparr>) = Inr s'"
      by (auto simp: tlb_ra_set_unfold split: if_splits)
    from inv have n0: "0 \<le> ?n" "?n \<le> 256" "length (tlb s) = 256"
      by (simp_all add: tlb_inv_def)
    with le have n: "?n < 256" "sint (next_tlb s + 1) = ?n + 1"
      by (simp_all add: sint_next_inc)
    from inv n n0 have "\<not> valid (tlb s ! nat ?n)" by (simp add: tlb_inv_def)
    with ok have "\<not> tlb_equal ?tnew (tlb s ! nat ?n)"
      by (auto simp: tlb_equal_iff entry_ok_def)
    with set_slot_effect [OF ss] have t: "tlb s' = (tlb s)[nat ?n := ?tnew]"
      and nx: "next_tlb s' = next_tlb s + 1"
      by auto
    from t n n0 have "tlb s' ! nat ?n = ?tnew" by simp
    moreover from t before have "\<forall>j. 0 \<le> j \<and> j < ?n \<longrightarrow>
        entry_ok (tlb s' ! nat j) \<and> \<not> hits va fl (tlb s' ! nat j)"
      by (auto simp: nth_list_update)
    ultimately show ?thesis
      using n0 n nx ok h eqn by (intro exI [of _ ?n] exI [of _ ?tnew]) simp
  next
    case False
    let ?t = "tlb s ! nat found"
    from False c have i: "0 \<le> found" "found < sint (next_tlb s)" "found < 256"
      "found < int (length (tlb s))"
      and t: "entry_ok ?t" "hits va fl ?t"
      and before: "\<forall>j. 0 \<le> j \<and> j < found \<longrightarrow>
          entry_ok (tlb s ! nat j) \<and> \<not> hits va fl (tlb s ! nat j)"
      and s1: "s1 = s\<lparr>tlb := (tlb s)[nat found := ?t\<lparr>hit_count := hit_count ?t + 1\<rparr>]\<rparr>"
      by auto
    from False r p f g have ss: "set_slot ?tnew found (s1\<lparr>tlb_debug := 0\<rparr>) = Inr s'"
      by (auto simp: tlb_ra_set_unfold)
    from set_slot_effect [OF ss] i obtain t' where t': "tlb s' = (tlb s)[nat found := t']"
      and nx: "next_tlb s' = next_tlb s"
      and alt: "t' = ?tnew \<or> tlb_equal ?tnew ?t \<and>
          t' = ?t\<lparr>hit_count := hit_count ?t + 1, miss_count := miss_count ?t + 1\<rparr>"
      by (auto simp: s1)
    from alt ok h eqn t have good: "entry_ok t' \<and> hits va fl t' \<and>
        tlb_equal (tnew_of va fl pa pagesize stack') t'"
      by (auto simp: tlb_equal_iff tnew_of_def)
    from t' i have "tlb s' ! nat found = t'" by simp
    moreover from t' before have "\<forall>j. 0 \<le> j \<and> j < found \<longrightarrow>
        entry_ok (tlb s' ! nat j) \<and> \<not> hits va fl (tlb s' ! nat j)"
      by (auto simp: nth_list_update)
    ultimately show ?thesis
      using i nx good by (intro exI [of _ found] exI [of _ t']) simp
  qed
  then obtain k t' where k: "0 \<le> k" "k < sint (next_tlb s')" "tlb s' ! nat k = t'"
    "entry_ok t'" "hits va fl t'" "tlb_equal (tnew_of va fl pa pagesize stack') t'"
    and before: "\<And>j. 0 \<le> j \<Longrightarrow> j < k \<Longrightarrow>
        entry_ok (tlb s' ! nat j) \<and> \<not> hits va fl (tlb s' ! nat j)"
    by blast
  from inv' have b: "sint (next_tlb s') \<le> 256" "sint (next_tlb s') \<le> int (length (tlb s'))"
    by (simp_all add: tlb_inv_def)
  from k b before
  have "tlb_get_index_from va fl 0 s' =
      Inr (k, s'\<lparr>tlb := (tlb s')[nat k := (tlb s' ! nat k)\<lparr>hit_count := hit_count (tlb s' ! nat k) + 1\<rparr>]\<rparr>)"
    by (intro tlb_get_index_from_some) simp_all
  with k show ?thesis
    by (auto simp: tlb_get_index_def)
qed

section \<open>The full store\<close>

lemma page_aligned: "(4096 * x) AND 4095 = (0 :: u64)"
proof -
  have "(4096 * x) AND 4095 = push_bit 12 x AND mask 12"
    by (simp add: push_bit_eq_mult mask_eq_exp_minus_1 mult.commute)
  also have "\<dots> = 0"
    by (simp add: bit_eq_iff bit_and_iff bit_push_bit_iff bit_mask_iff)
  finally show ?thesis .
qed

lemma unat_page: "i < 256 \<Longrightarrow> unat (4096 * of_nat i :: u64) = 4096 * i"
  by (simp add: unat_word_ariths unat_of_nat)

lemma unat_page_last: "j < 256 \<Longrightarrow> unat (4095 + 4096 * of_nat j :: u64) = 4096 * j + 4095"
proof -
  assume j: "j < 256"
  have "4095 + 4096 * of_nat j = (of_nat (4096 * j + 4095) :: u64)"
    by simp
  with j show ?thesis
    by (simp only: unat_of_nat) simp
qed

lemma hits_page:
  assumes "j < 256"
  shows "hits va fl (page j) \<longleftrightarrow> 4096 * j \<le> unat va \<and> unat va < 4096 * j + 4096 \<and> fl = 0"
proof -
  from assms have "unat (ea (page j)) + unat (size_tlbe (page j)) < 2 ^ 64"
    by (simp add: page_def unat_page)
  from hits_iff_in_range [OF this] assms show ?thesis
    by (auto simp: in_range_def page_def unat_page)
qed

lemma entry_ok_page: "entry_ok (page i)"
  by (simp add: entry_ok_def page_def page_aligned)

lemma page_endpoints:
  assumes "a < c" and "c < 256"
  shows "\<not> hits (ea (page a)) (flags (page a)) (page c)"
    and "\<not> hits (ea (page a) + size_tlbe (page a) - 1) (flags (page a)) (page c)"
proof -
  from assms have "unat (ea (page a)) = 4096 * a"
    and "unat (ea (page a) + size_tlbe (page a) - 1) = 4096 * a + 4095"
    by (simp_all add: page_def unat_page unat_page_last)
  with assms show "\<not> hits (ea (page a)) (flags (page a)) (page c)"
    and "\<not> hits (ea (page a) + size_tlbe (page a) - 1) (flags (page a)) (page c)"
    by (simp_all add: hits_page)
qed

lemma store_nth:
  "k \<le> 256 \<Longrightarrow> i < 256 \<Longrightarrow> tlb (store k) ! i = (if i < k then page i else zero_tlbe)"
  by (simp add: store_def nth_append)

lemma sint_store: "k \<le> 256 \<Longrightarrow> sint (next_tlb (store k)) = int k"
proof -
  assume "k \<le> 256"
  then have "sint (of_nat k :: c_int) = int k"
    by (simp add: signed_of_nat signed_take_bit_int_eq_self)
  then show ?thesis by (simp add: store_def)
qed

lemma tlb_inv_store: "k \<le> 256 \<Longrightarrow> tlb_inv (store k)"
  unfolding tlb_inv_def
  by (auto simp: sint_store store_nth entry_ok_page) (simp_all add: store_def zero_tlbe_def page_def)

lemma endpoints_free_store: "k \<le> 256 \<Longrightarrow> endpoints_free (store k)"
proof -
  assume k: "k \<le> 256"
  have "\<not> hits (ea (tlb (store k) ! nat j)) (flags (tlb (store k) ! nat j)) (tlb (store k) ! nat i) \<and>
        \<not> hits (ea (tlb (store k) ! nat j) + size_tlbe (tlb (store k) ! nat j) - 1)
             (flags (tlb (store k) ! nat j)) (tlb (store k) ! nat i)"
    if "0 \<le> j" "j < i" "i < sint (next_tlb (store k))" for i j
  proof -
    from that k have b: "nat j < nat i" "nat i < k" "nat i < 256" "nat j < 256" "nat j < k"
      by (simp_all add: sint_store)
    with k have "tlb (store k) ! nat j = page (nat j)" "tlb (store k) ! nat i = page (nat i)"
      by (simp_all add: store_nth)
    with page_endpoints [OF b(1) b(3)] show ?thesis by simp
  qed
  then show ?thesis unfolding endpoints_free_def by blast
qed

lemma and_not_mask_aligned: "a AND m = 0 \<Longrightarrow> a AND NOT m = (a :: u64)"
  by (auto simp: bit_eq_iff bit_and_iff bit_not_iff)

lemma tnew_page: "tnew_of (4096 * of_nat k) 0 (4096 * of_nat k) 4096 zero_tlbe = page k"
  using and_not_mask_aligned [OF page_aligned [of "of_nat k"]]
  by (simp add: tnew_of_def zero_tlbe_def page_def)

lemma store_Suc:
  assumes "k < 256"
  shows "(store k)\<lparr>next_tlb := next_tlb (store k) + 1, tlb_debug := 0,
            tlb := (tlb (store k))[k := page k]\<rparr> = store (Suc k)"
proof -
  have "(map page [0..<k] @ replicate (256 - k) zero_tlbe)[k := page k] =
        map page [0..<Suc k] @ replicate (256 - Suc k) zero_tlbe"
    using assms by (intro nth_equalityI) (auto simp: nth_append nth_list_update less_Suc_eq)
  then show ?thesis
    by (simp add: store_def boot_def)
qed

lemma set_store:
  assumes "k < 256"
  shows "tlb_ra_set (4096 * of_nat k) 0 (4096 * of_nat k) 4096 zero_tlbe (store k) = Inr (store (Suc k))"
proof -
  let ?a = "4096 * of_nat k :: u64"
  from assms have k: "k \<le> 256" by simp
  have inv: "tlb_inv (store k)" using k by (rule tlb_inv_store)
  have n: "sint (next_tlb (store k)) = int k" using k by (rule sint_store)
  have p: "tlb_pagesize_validate 4096 = Inr ()" and f: "tlb_flags_validate 0 = Inr ()"
    by (simp_all add: tlb_pagesize_validate_def tlb_flags_validate_def)
  have scan: "entry_ok (tlb (store k) ! nat j) \<and> \<not> hits ?a 0 (tlb (store k) ! nat j)"
    if "0 \<le> j" "j < sint (next_tlb (store k))" for j
  proof -
    from that n assms have b: "nat j < k" "nat j < 256" by simp_all
    with k have "tlb (store k) ! nat j = page (nat j)" by (simp add: store_nth)
    moreover from assms b have "\<not> hits ?a 0 (page (nat j))"
      by (simp add: hits_page unat_page)
    ultimately show ?thesis by (simp add: entry_ok_page)
  qed
  from inv scan have g: "tlb_get_index ?a 0 (store k) = Inr (- 1, store k)"
    unfolding tlb_get_index_def by (intro tlb_get_index_from_none) (simp_all add: tlb_inv_def)
  have n1: "sint (next_tlb (store k) + 1) = int k + 1"
    using inv n by (simp add: sint_next_inc tlb_inv_def)
  from assms k have at: "tlb_at (tlb (store k)) (int k) = Some zero_tlbe"
    by (simp add: tlb_at_Some store_nth) (simp add: store_def)
  have ne: "\<not> tlb_equal (page k) zero_tlbe"
    by (simp add: tlb_equal_def page_def zero_tlbe_def)
  have v: "tlb_validate (store (Suc k)) = Inr (store (Suc k))"
    using assms by (intro tlb_validate_ok tlb_inv_store endpoints_free_store) simp_all
  from p f g n n1 assms at ne v show ?thesis
    by (simp add: tlb_ra_set_unfold set_slot_def tnew_page zero_tlbe_def [THEN arg_cong [where f = valid]]
        store_Suc)
qed

lemma store_0: "store 0 = cleared boot"
  by (simp add: store_def cleared_def boot_def TLB_SIZE_def)

lemma reachable_store: "k \<le> 256 \<Longrightarrow> reachable (store k)"
proof (induction k)
  case 0
  show ?case unfolding store_0 by (rule reachable.init [OF tlb_init_eq])
next
  case (Suc k)
  then have "k < 256" and "reachable (store k)" by simp_all
  then show ?case by (intro reachable.set [OF _ set_store])
qed

lemma full_store_eq: "full_store = store 256"
  by (simp add: full_store_def store_def)

lemma reachable_full_store: "reachable full_store"
  unfolding full_store_eq by (rule reachable_store) simp

section \<open>The claims\<close>

text \<open>
  C1. The claim: in every reachable state no two valid entries with equal flags have
  overlapping ranges \<open>[ea, ea + size)\<close>. The code does not keep it. The overlap check of
  \<^verbatim>\<open>tlb_validate\<close> looks up only the first and the last address of each entry, and
  only among the entries after it, so it does not see a later entry that lies strictly
  inside an earlier one. The run below returns normally from every call: two 4K pages at
  \<open>0\<close> and \<open>0x1000\<close> are set, then the page at \<open>0\<close> is set again with size 64K. The
  lookup finds slot 0, the slot is overwritten, the validation passes, and slots 0 and
  1 hold \<open>[0, 0x10000)\<close> and \<open>[0x1000, 0x2000)\<close> under the same flags.
\<close>

theorem tlb_validate_misses_inner_overlap:
  "\<exists>s0 s1 s2 s3.
     tlb_init g = Inr s0 \<and>
     tlb_ra_set 0 0 0 4096 st s0 = Inr s1 \<and>
     tlb_ra_set 0x1000 0 0 4096 st s1 = Inr s2 \<and>
     tlb_ra_set 0 0 0 65536 st s2 = Inr s3 \<and>
     reachable s3 \<and>
     valid (tlb s3 ! 0) \<and> valid (tlb s3 ! 1) \<and> flags (tlb s3 ! 0) = flags (tlb s3 ! 1) \<and>
     ea (tlb s3 ! 0) = 0 \<and> size_tlbe (tlb s3 ! 0) = 65536 \<and>
     ea (tlb s3 ! 1) = 0x1000 \<and> size_tlbe (tlb s3 ! 1) = 4096 \<and>
     ranges_overlap (tlb s3 ! 0) (tlb s3 ! 1)"
proof -
  let ?s1 = "(cleared g)\<lparr>tlb := (tlb (cleared g))[0 := tnew_of 0 0 0 4096 st], next_tlb := 1, tlb_debug := 0\<rparr>"
  let ?s2 = "(cleared g)\<lparr>tlb := (tlb (cleared g))[0 := tnew_of 0 0 0 4096 st, 1 := tnew_of 0x1000 0 0 4096 st],
          next_tlb := 2, tlb_debug := 0\<rparr>"
  let ?s3 = "(cleared g)\<lparr>tlb := (tlb (cleared g))[0 := tnew_of 0 0 0 65536 st, 1 := tnew_of 0x1000 0 0 4096 st],
          next_tlb := 2, translation_changes := 1, tlb_debug := 0\<rparr>"
  have r: "reachable ?s3"
    by (rule reachable.set [OF reachable.set [OF reachable.set [OF reachable.init [OF tlb_init_eq] grow_1] grow_2] grow_3])
  have p: "valid (tlb ?s3 ! 0) \<and> valid (tlb ?s3 ! 1) \<and> flags (tlb ?s3 ! 0) = flags (tlb ?s3 ! 1) \<and>
     ea (tlb ?s3 ! 0) = 0 \<and> size_tlbe (tlb ?s3 ! 0) = 65536 \<and>
     ea (tlb ?s3 ! 1) = 0x1000 \<and> size_tlbe (tlb ?s3 ! 1) = 4096 \<and>
     ranges_overlap (tlb ?s3 ! 0) (tlb ?s3 ! 1)"
    by (simp add: cleared_def TLB_SIZE_def tnew_of_def ranges_overlap_def)
  show ?thesis
    apply (rule exI [of _ "cleared g"])
    apply (rule exI [of _ ?s1])
    apply (rule exI [of _ ?s2])
    apply (rule exI [of _ ?s3])
    apply (intro conjI tlb_init_eq grow_1 grow_2 grow_3 r p [THEN conjunct1]
        p [THEN conjunct2, THEN conjunct1])
    using p apply simp_all
    done
qed

text \<open>
  C2. The claim: after \<^verbatim>\<open>tlb_ra_set\<close> has overwritten a slot with the candidate, the
  slot's hit and miss counters are zero. The code does not do it: \<^verbatim>\<open>tnew\<close> is an
  uninitialised local whose two counters are never assigned, and \<^verbatim>\<open>memcpy\<close> copies
  them into the slot as they are. With 7 and 9 in the local, the first set on the
  empty cache leaves a slot with hit counter 7 and miss counter 9.
\<close>

theorem tlb_ra_set_copies_stack_counters:
  "\<exists>s0 s1. tlb_init boot = Inr s0 \<and> tlb_ra_set 0x1000 0 0x2000 4096 junk s0 = Inr s1 \<and>
     valid (tlb s1 ! 0) \<and> hit_count (tlb s1 ! 0) = 7 \<and> miss_count (tlb s1 ! 0) = 9"
proof -
  let ?s1 = "(cleared boot)\<lparr>tlb := (tlb (cleared boot))[0 := tnew_of 0x1000 0 0x2000 4096 junk], next_tlb := 1, tlb_debug := 0\<rparr>"
  have p: "valid (tlb ?s1 ! 0) \<and> hit_count (tlb ?s1 ! 0) = 7 \<and> miss_count (tlb ?s1 ! 0) = 9"
    by (simp add: cleared_def TLB_SIZE_def tnew_of_def junk_def)
  show ?thesis
    apply (rule exI [of _ "cleared boot"])
    apply (rule exI [of _ ?s1])
    apply (intro conjI tlb_init_eq set_first)
    using p apply simp_all
    done
qed

text \<open>
  C3. In every state reached by calls of \<^verbatim>\<open>tlb_init\<close>, \<^verbatim>\<open>tlb_ra_get\<close> and
  \<^verbatim>\<open>tlb_ra_set\<close> that returned, the valid entries are the prefix \<open>[0, next)\<close> of the
  256 slots: a slot is valid if and only if its index is below \<^verbatim>\<open>tlb.next\<close>.
\<close>

theorem valid_prefix:
  "reachable s \<Longrightarrow>
     length (tlb s) = 256 \<and> 0 \<le> sint (next_tlb s) \<and> sint (next_tlb s) \<le> 256 \<and>
     (\<forall>i<256. valid (tlb s ! i) \<longleftrightarrow> int i < sint (next_tlb s))"
  by (drule reachable_inv) (simp add: tlb_inv_def)

text \<open>The state after one set on the empty cache: slot 0 is valid, slots 1 and 255 are not.\<close>

theorem valid_prefix_witness:
  "\<exists>s. tlb_ra_set 0x1000 0 0x2000 4096 junk (cleared boot) = Inr s \<and> reachable s \<and>
     sint (next_tlb s) = 1 \<and> valid (tlb s ! 0) \<and> \<not> valid (tlb s ! 1) \<and> \<not> valid (tlb s ! 255)"
proof -
  let ?s1 = "(cleared boot)\<lparr>tlb := (tlb (cleared boot))[0 := tnew_of 0x1000 0 0x2000 4096 junk], next_tlb := 1, tlb_debug := 0\<rparr>"
  have r: "reachable ?s1" by (rule reachable_first)
  have n: "sint (next_tlb ?s1) = 1" by simp
  note vp = valid_prefix [OF r, THEN conjunct2, THEN conjunct2, THEN conjunct2, rule_format]
  have p: "valid (tlb ?s1 ! 0)" "\<not> valid (tlb ?s1 ! 1)" "\<not> valid (tlb ?s1 ! 255)"
    using vp [of 0] vp [of 1] vp [of 255] by simp_all
  show ?thesis
    apply (rule exI [of _ ?s1])
    apply (intro conjI set_first r n p)
    done
qed

text \<open>
  C4. In every such state, every valid entry has a page size of 4096, 65536 or
  16777216, and the low \<open>size - 1\<close> bits of its \<open>ea\<close> and of its \<open>ra\<close> are zero.
\<close>

theorem valid_entries_aligned:
  "reachable s \<Longrightarrow> i < 256 \<Longrightarrow> valid (tlb s ! i) \<Longrightarrow>
     (size_tlbe (tlb s ! i) = 4096 \<or> size_tlbe (tlb s ! i) = 65536 \<or> size_tlbe (tlb s ! i) = 16777216) \<and>
     ea (tlb s ! i) AND (size_tlbe (tlb s ! i) - 1) = 0 \<and>
     ra (tlb s ! i) AND (size_tlbe (tlb s ! i) - 1) = 0"
  by (drule reachable_inv) (auto dest: tlb_inv_valid simp: entry_ok_def)

text \<open>
  The state after \<^verbatim>\<open>tlb_ra_set(0x1234, 0, 0x2345, 4096)\<close> on the empty cache: slot 0
  holds the page \<open>0x1000\<close> mapped to \<open>0x2000\<close>.
\<close>

theorem valid_entries_aligned_witness:
  "\<exists>s. tlb_ra_set 0x1234 0 0x2345 4096 junk (cleared boot) = Inr s \<and> reachable s \<and>
     valid (tlb s ! 0) \<and> size_tlbe (tlb s ! 0) = 4096 \<and>
     ea (tlb s ! 0) = 0x1000 \<and> ea (tlb s ! 0) AND (size_tlbe (tlb s ! 0) - 1) = 0 \<and>
     ra (tlb s ! 0) = 0x2000 \<and> ra (tlb s ! 0) AND (size_tlbe (tlb s ! 0) - 1) = 0"
proof -
  let ?s1 = "(cleared boot)\<lparr>tlb := (tlb (cleared boot))[0 := tnew_of 0x1234 0 0x2345 4096 junk], next_tlb := 1, tlb_debug := 0\<rparr>"
  have e: "tlb_ra_set 0x1234 0 0x2345 4096 junk (cleared boot) = Inr ?s1"
    apply (simp add: eval_simps)
    apply (subst holes_ok)
      apply (auto simp: nth_list_update split: if_splits)
    done
  have r: "reachable ?s1"
    by (rule reachable.set [OF reachable.init [OF tlb_init_eq] e])
  have v: "valid (tlb ?s1 ! 0)" "size_tlbe (tlb ?s1 ! 0) = 4096"
    "ea (tlb ?s1 ! 0) = 0x1000" "ra (tlb ?s1 ! 0) = 0x2000"
    by (simp_all add: cleared_def TLB_SIZE_def tnew_of_def)
  note al = valid_entries_aligned [OF r _ v(1)]
  show ?thesis
    apply (rule exI [of _ ?s1])
    apply (intro conjI e r v)
    using al apply simp_all
    done
qed

text \<open>
  \<^verbatim>\<open>tlb_translate\<close> under its own assertions: the result is
  \<open>(ea AND (size - 1)) OR (ra AND NOT (size - 1))\<close>, whose low bits are those of \<open>ea\<close>
  and whose high bits are those of the entry's \<open>ra\<close>. The range test is the asserted
  one, in the arithmetic of \<^verbatim>\<open>uint64_t\<close>.
\<close>

lemma tlb_translate_result:
  "ea t \<le> va \<Longrightarrow> va < ea t + size_tlbe t \<Longrightarrow> tlb_flags_validate fl = Inr () \<Longrightarrow>
   tlb_entry_validate t = Inr () \<Longrightarrow>
   (\<exists>r. tlb_translate va fl t = Inr r \<and>
     r = (va AND (size_tlbe t - 1)) OR (ra t AND NOT (size_tlbe t - 1)) \<and>
     r AND (size_tlbe t - 1) = va AND (size_tlbe t - 1) \<and>
     r AND NOT (size_tlbe t - 1) = ra t AND NOT (size_tlbe t - 1))"
proof -
  have a: "((x AND m) OR (y AND NOT m)) AND m = x AND m" for x y m :: u64
    by (auto simp: bit_eq_iff bit_and_iff bit_or_iff bit_not_iff)
  have b: "((x AND m) OR (y AND NOT m)) AND NOT m = y AND NOT m" for x y m :: u64
    by (auto simp: bit_eq_iff bit_and_iff bit_or_iff bit_not_iff)
  assume "ea t \<le> va" "va < ea t + size_tlbe t" "tlb_flags_validate fl = Inr ()"
    "tlb_entry_validate t = Inr ()"
  then show ?thesis
    by (simp add: tlb_translate_def tlb_mask_offset_def tlb_mask_rpn_def Let_def a b)
qed

text \<open>
  For an entry whose range does not reach \<open>2 ^ 64\<close> the asserted range test is the
  range \<open>[ea, ea + size)\<close>, and the translation is returned for every address in it.
\<close>

lemma tlb_translate_in_range:
  assumes "unat (ea t) + unat (size_tlbe t) < 2 ^ 64" and "in_range va t"
    and "tlb_flags_validate fl = Inr ()" and "tlb_entry_validate t = Inr ()"
  shows "tlb_translate va fl t = Inr ((va AND (size_tlbe t - 1)) OR (ra t AND NOT (size_tlbe t - 1)))"
proof -
  from assms(1,2) have "hits va (flags t) t"
    by (simp add: hits_iff_in_range)
  then have "ea t \<le> va" "va < ea t + size_tlbe t"
    by (simp_all add: hits_def)
  with assms(3,4) show ?thesis
    by (simp add: tlb_translate_def tlb_mask_offset_def tlb_mask_rpn_def Let_def)
qed


text \<open>
  C6. On the empty cache, after \<^verbatim>\<open>tlb_ra_set(0x1000, 0, 0x2000, 4096)\<close>, the call
  \<^verbatim>\<open>tlb_ra_set(0x1000, 0, 0x3000, 4096)\<close> adds 1 to \<^verbatim>\<open>translation_changes\<close>, and
  \<^verbatim>\<open>tlb_ra_get(0x1005, 0)\<close> then finds the entry and returns \<open>ra = 0x3005\<close>. This
  holds whatever the globals were before \<^verbatim>\<open>tlb_init\<close> and whatever the local
  \<^verbatim>\<open>tnew\<close> held in either call.
\<close>

theorem replace_then_lookup:
  "\<exists>s0 s1 s2 s3.
     tlb_init g = Inr s0 \<and>
     tlb_ra_set 0x1000 0 0x2000 4096 st s0 = Inr s1 \<and>
     tlb_ra_set 0x1000 0 0x3000 4096 st' s1 = Inr s2 \<and>
     translation_changes s2 = translation_changes s1 + 1 \<and>
     tlb_ra_get 0x1005 0 True True s2 = Inr (Some (0x3005, 4096), s3)"
  apply (rule exI [of _ "cleared g"])
  apply (rule exI [of _ "(cleared g)\<lparr>tlb := (tlb (cleared g))[0 := tnew_of 0x1000 0 0x2000 4096 st], next_tlb := 1, tlb_debug := 0\<rparr>"])
  apply (rule exI [of _ "(cleared g)\<lparr>tlb := (tlb (cleared g))[0 := tnew_of 0x1000 0 0x3000 4096 st'], next_tlb := 1,
         translation_changes := 1, tlb_debug := 0\<rparr>"])
  apply (rule exI [of _ "(cleared g)\<lparr>tlb := (tlb (cleared g))[0 := (tnew_of 0x1000 0 0x3000 4096 st')\<lparr>hit_count := hit_count st' + 1\<rparr>],
        next_tlb := 1, translations_tlb := 1, translation_changes := 1, tlb_debug := 0\<rparr>"])
  apply (intro conjI tlb_init_eq set_first set_replace get_after_replace)
  apply (simp add: cleared_def)
  done

text \<open>
  C10. Every call of \<^verbatim>\<open>tlb_ra_set\<close> that returns leaves \<^verbatim>\<open>tlb_debug\<close> at 0,
  whatever it was on entry.
\<close>

theorem tlb_ra_set_clears_debug:
  "tlb_ra_set va fl pa pagesize stack s = Inr s' \<Longrightarrow> tlb_debug s' = 0"
proof -
  have slot: "set_slot tnew index s3 = Inr s' \<Longrightarrow> tlb_debug s' = tlb_debug s3"
    for tnew index s3
    by (auto simp: set_slot_def split: option.splits if_splits dest!: tlb_validate_Inr)
  assume "tlb_ra_set va fl pa pagesize stack s = Inr s'"
  then show ?thesis
    by (auto simp: tlb_ra_set_unfold split: sum.splits if_splits dest!: slot)
qed

text \<open>A set on the empty cache entered with \<^verbatim>\<open>tlb_debug = 1\<close>.\<close>

theorem tlb_ra_set_clears_debug_witness:
  "\<exists>s. tlb_ra_set 0x1000 0 0x2000 4096 junk (cleared (boot\<lparr>tlb_debug := 1\<rparr>)) = Inr s \<and>
     tlb_debug (cleared (boot\<lparr>tlb_debug := 1\<rparr>)) = 1 \<and> tlb_debug s = 0"
proof -
  let ?g = "boot\<lparr>tlb_debug := 1\<rparr>"
  let ?s1 = "(cleared ?g)\<lparr>tlb := (tlb (cleared ?g))[0 := tnew_of 0x1000 0 0x2000 4096 junk], next_tlb := 1, tlb_debug := 0\<rparr>"
  have e: "tlb_ra_set 0x1000 0 0x2000 4096 junk (cleared ?g) = Inr ?s1"
    by (rule set_first)
  have d: "tlb_debug (cleared ?g) = 1"
    by (simp add: cleared_def)
  from tlb_ra_set_clears_debug [OF e] e d show ?thesis
    by (intro exI [of _ ?s1] conjI)
qed

text \<open>
  The branch of \<^verbatim>\<open>tlb_ra_set\<close> that counts a miss: when the lookup finds slot \<open>i\<close>
  and the candidate equals the entry of that slot in \<open>ea\<close>, \<open>ra\<close>, \<open>size\<close>,
  \<open>flags\<close> and \<open>valid\<close>, the call returns, the slot is not overwritten, its miss
  counter is one more than before, and \<^verbatim>\<open>translation_changes\<close> and every other field
  of every entry are as before, but for the hit counter of the slot, which the lookup
  has incremented. A call that repeats the arguments of a set that has just returned
  reaches this branch for every page that does not end at \<open>2 ^ 64\<close>
  (lemma \<open>set_then_matched\<close>).
\<close>

lemma repeated_set_counts_miss:
  assumes "tlb_get_index va fl s = Inr (i, s1)" and "0 \<le> i"
    and "tlb_equal (tnew_of va fl pa pagesize stack) (tlb s ! nat i)"
  shows "tlb_ra_set va fl pa pagesize stack s =
     Inr (s\<lparr>tlb := (tlb s)[nat i := (tlb s ! nat i)
                  \<lparr>hit_count := hit_count (tlb s ! nat i) + 1,
                   miss_count := miss_count (tlb s ! nat i) + 1\<rparr>],
            tlb_debug := 0\<rparr>)"
proof -
  let ?t = "tlb s ! nat i"
  from tlb_get_index_from_cases [OF assms(1) [unfolded tlb_get_index_def]] assms(2)
  have i: "i < 256" "i < int (length (tlb s))" and ok: "entry_ok ?t"
    and s1: "s1 = s\<lparr>tlb := (tlb s)[nat i := ?t\<lparr>hit_count := hit_count ?t + 1\<rparr>]\<rparr>"
    by auto
  from assms(3) have eq: "size_tlbe ?t = pagesize" "flags ?t = fl"
    by (simp_all add: tlb_equal_iff tnew_of_def)
  with ok have p: "tlb_pagesize_validate pagesize = Inr ()" and f: "tlb_flags_validate fl = Inr ()"
    by (auto simp: entry_ok_def tlb_pagesize_validate_def tlb_flags_validate_def)
  from i assms(2) have at: "tlb_at (tlb (s1\<lparr>tlb_debug := 0\<rparr>)) i = Some (?t\<lparr>hit_count := hit_count ?t + 1\<rparr>)"
    by (simp add: s1 tlb_at_Some)
  from assms(3) have eq': "tlb_equal (tnew_of va fl pa pagesize stack) (?t\<lparr>hit_count := hit_count ?t + 1\<rparr>)"
    by (simp add: tlb_equal_iff)
  from assms(2) have "\<not> i < 0" by simp
  with p f assms(1) at eq' show ?thesis
    by (simp add: tlb_ra_set_unfold set_slot_def s1)
qed

text \<open>
  \<^verbatim>\<open>tlb_ra_set(0x1000, 0, 0x2000, 4096)\<close> twice on the empty cache; the first call
  leaves the counters 7 and 9 of its local in the slot, the second makes them 8 and 10.
\<close>

lemma repeated_set_example:
  "\<exists>s s'. tlb_ra_set 0x1000 0 0x2000 4096 junk (cleared boot) = Inr s \<and>
     (\<exists>s1. tlb_get_index 0x1000 0 s = Inr (0, s1)) \<and>
     tlb_equal (tnew_of 0x1000 0 0x2000 4096 zero_tlbe) (tlb s ! 0) \<and>
     tlb_ra_set 0x1000 0 0x2000 4096 zero_tlbe s = Inr s' \<and>
     miss_count (tlb s ! 0) = 9 \<and> miss_count (tlb s' ! 0) = 10 \<and>
     hit_count (tlb s ! 0) = 7 \<and> hit_count (tlb s' ! 0) = 8 \<and>
     translation_changes s' = translation_changes s \<and>
     ea (tlb s' ! 0) = 0x1000 \<and> ra (tlb s' ! 0) = 0x2000 \<and> size_tlbe (tlb s' ! 0) = 4096 \<and>
     flags (tlb s' ! 0) = 0 \<and> valid (tlb s' ! 0)"
proof -
  let ?s = "(cleared boot)\<lparr>tlb := (tlb (cleared boot))[0 := tnew_of 0x1000 0 0x2000 4096 junk], next_tlb := 1, tlb_debug := 0\<rparr>"
  let ?h = "?s\<lparr>tlb := (tlb ?s)[0 := (tlb ?s ! 0)\<lparr>hit_count := hit_count (tlb ?s ! 0) + 1\<rparr>]\<rparr>"
  let ?s' = "?s\<lparr>tlb := (tlb ?s)[nat 0 := (tlb ?s ! nat 0)
                  \<lparr>hit_count := hit_count (tlb ?s ! nat 0) + 1,
                   miss_count := miss_count (tlb ?s ! nat 0) + 1\<rparr>],
            tlb_debug := 0\<rparr>"
  have g: "tlb_get_index 0x1000 0 ?s = Inr (0, ?h)"
    by (simp add: eval_simps)
  have e: "tlb_equal (tnew_of 0x1000 0 0x2000 4096 zero_tlbe) (tlb ?s ! nat 0)"
    by (simp add: tlb_equal_def tnew_of_def cleared_def TLB_SIZE_def)
  have r: "tlb_ra_set 0x1000 0 0x2000 4096 zero_tlbe ?s = Inr ?s'"
    by (rule repeated_set_counts_miss [OF g _ e]) simp
  from g have g': "\<exists>s1. tlb_get_index 0x1000 0 ?s = Inr (0, s1)" ..
  from e have e': "tlb_equal (tnew_of 0x1000 0 0x2000 4096 zero_tlbe) (tlb ?s ! 0)"
    by simp
  have p: "miss_count (tlb ?s ! 0) = 9 \<and> miss_count (tlb ?s' ! 0) = 10 \<and>
     hit_count (tlb ?s ! 0) = 7 \<and> hit_count (tlb ?s' ! 0) = 8 \<and>
     translation_changes ?s' = translation_changes ?s \<and>
     ea (tlb ?s' ! 0) = 0x1000 \<and> ra (tlb ?s' ! 0) = 0x2000 \<and> size_tlbe (tlb ?s' ! 0) = 4096 \<and>
     flags (tlb ?s' ! 0) = 0 \<and> valid (tlb ?s' ! 0)"
    by (simp add: cleared_def TLB_SIZE_def tnew_of_def junk_def)
  show ?thesis
    apply (rule exI [of _ ?s])
    apply (rule exI [of _ ?s'])
    apply (rule conjI [OF set_first])
    apply (rule conjI [OF g'])
    apply (rule conjI [OF e'])
    apply (rule conjI [OF r])
    apply (rule p)
    done
qed

text \<open>
  C7. The claim: a second call of \<^verbatim>\<open>tlb_ra_set\<close> with the arguments of an earlier
  call whose entry is still stored adds 1 to the miss counter of that entry, leaves
  \<^verbatim>\<open>translation_changes\<close> and the entry's fields as they are, and overwrites no
  slot. The code does not do it for the page that ends at \<open>2 ^ 64\<close>: in
  \<^verbatim>\<open>tlb_match\<close> the sum \<^verbatim>\<open>t->ea + t->size\<close> wraps to 0, the test
  \<^verbatim>\<open>ea >= (t->ea + t->size)\<close> holds for every \<open>ea\<close>, and the entry is never found. In
  the run below the first call stores the entry in slot 0; the candidate of the second
  call equals it; the second call returns, the miss counter of slot 0 is what it was,
  and slot 1 holds a second copy of the entry. It is the wrap-around shown for
  \<^verbatim>\<open>tlb_translate\<close> above.
\<close>

theorem repeated_set_of_last_page_appends:
  "\<exists>s0 s1 s2.
     tlb_init g = Inr s0 \<and>
     tlb_ra_set 0xFFFFFFFFFFFFF000 0 0x5000 4096 st s0 = Inr s1 \<and>
     valid (tlb s1 ! 0) \<and>
     tlb_equal (tnew_of 0xFFFFFFFFFFFFF000 0 0x5000 4096 st') (tlb s1 ! 0) \<and>
     tlb_ra_set 0xFFFFFFFFFFFFF000 0 0x5000 4096 st' s1 = Inr s2 \<and>
     miss_count (tlb s2 ! 0) = miss_count (tlb s1 ! 0) \<and>
     sint (next_tlb s1) = 1 \<and> sint (next_tlb s2) = 2 \<and>
     valid (tlb s2 ! 1) \<and> tlb_equal (tlb s2 ! 1) (tlb s2 ! 0)"
proof -
  let ?s1 = "(cleared g)\<lparr>tlb := (tlb (cleared g))[0 := tnew_of 0xFFFFFFFFFFFFF000 0 0x5000 4096 st],
          next_tlb := 1, tlb_debug := 0\<rparr>"
  let ?s2 = "(cleared g)\<lparr>tlb := (tlb (cleared g))[0 := tnew_of 0xFFFFFFFFFFFFF000 0 0x5000 4096 st,
            1 := tnew_of 0xFFFFFFFFFFFFF000 0 0x5000 4096 st'],
          next_tlb := 2, tlb_debug := 0\<rparr>"
  have p: "valid (tlb ?s1 ! 0)"
    "tlb_equal (tnew_of 0xFFFFFFFFFFFFF000 0 0x5000 4096 st') (tlb ?s1 ! 0)"
    "miss_count (tlb ?s2 ! 0) = miss_count (tlb ?s1 ! 0)"
    "sint (next_tlb ?s1) = 1" "sint (next_tlb ?s2) = 2"
    "valid (tlb ?s2 ! 1)" "tlb_equal (tlb ?s2 ! 1) (tlb ?s2 ! 0)"
    by (simp_all add: cleared_def TLB_SIZE_def tnew_of_def tlb_equal_def)
  show ?thesis
    apply (rule exI [of _ "cleared g"])
    apply (rule exI [of _ ?s1])
    apply (rule exI [of _ ?s2])
    apply (intro conjI tlb_init_eq last_page_1 last_page_2 p)
    done
qed

text \<open>
  C8. In a reachable state, when \<open>ea\<close> lies in the range of no valid entry with the
  given flags, \<^verbatim>\<open>tlb_ra_get\<close> (called with two pointers that are not null) returns
  not-found, adds 1 to \<^verbatim>\<open>translations\<close> and to \<^verbatim>\<open>no_translation\<close>, and changes
  nothing else: every stored entry is as before.
\<close>

theorem lookup_miss:
  assumes "reachable s"
    and "\<forall>i<256. valid (tlb s ! i) \<longrightarrow> \<not> (in_range va (tlb s ! i) \<and> flags (tlb s ! i) = fl)"
  shows "tlb_ra_get va fl True True s =
     Inr (None, s\<lparr>translations_tlb := translations_tlb s + 1,
                   no_translation := no_translation s + 1\<rparr>)"
proof -
  let ?s0 = "s\<lparr>translations_tlb := translations_tlb s + 1\<rparr>"
  from assms(1) have inv: "tlb_inv s" by (rule reachable_inv)
  have scan: "entry_ok (tlb ?s0 ! nat j) \<and> \<not> hits va fl (tlb ?s0 ! nat j)"
    if "0 \<le> j" "j < sint (next_tlb ?s0)" for j
  proof -
    from that inv have k: "nat j < 256" and v: "valid (tlb s ! nat j)"
      by (auto simp: tlb_inv_def)
    from inv k v have "entry_ok (tlb s ! nat j)" by (rule tlb_inv_valid)
    moreover from assms(2) k v have "\<not> hits va fl (tlb s ! nat j)"
      by (auto dest: hits_in_range)
    ultimately show ?thesis by simp
  qed
  from inv have "sint (next_tlb ?s0) \<le> 256" "sint (next_tlb ?s0) \<le> int (length (tlb ?s0))"
    by (simp_all add: tlb_inv_def)
  with scan have "tlb_get_index_from va fl 0 ?s0 = Inr (- 1, ?s0)"
    by (intro tlb_get_index_from_none) simp_all
  then show ?thesis
    by (simp add: tlb_ra_get_def tlb_get_index_def Let_def)
qed

text \<open>A lookup of \<open>0x2000\<close> when the only entry is the page at \<open>0x1000\<close>.\<close>

theorem lookup_miss_witness:
  "\<exists>s. tlb_ra_set 0x1000 0 0x2000 4096 junk (cleared boot) = Inr s \<and> reachable s \<and>
     tlb_ra_get 0x2000 0 True True s = Inr (None, s\<lparr>translations_tlb := 1, no_translation := 1\<rparr>)"
proof -
  let ?s = "(cleared boot)\<lparr>tlb := (tlb (cleared boot))[0 := tnew_of 0x1000 0 0x2000 4096 junk], next_tlb := 1, tlb_debug := 0\<rparr>"
  have r: "reachable ?s" by (rule reachable_first)
  have n: "\<forall>i<256. valid (tlb ?s ! i) \<longrightarrow> \<not> (in_range 0x2000 (tlb ?s ! i) \<and> flags (tlb ?s ! i) = 0)"
    by (auto simp: cleared_def TLB_SIZE_def nth_list_update zero_tlbe_def tnew_of_def in_range_def)
  have c: "translations_tlb ?s + 1 = 1" "no_translation ?s + 1 = 1"
    by (simp_all add: cleared_def)
  from lookup_miss [OF r n] have "tlb_ra_get 0x2000 0 True True ?s = Inr (None, ?s\<lparr>translations_tlb := 1, no_translation := 1\<rparr>)"
    unfolding c .
  with r show ?thesis
    by (intro exI [of _ ?s] conjI set_first)
qed

text \<open>
  C9. When \<^verbatim>\<open>tlb.next\<close> is 256 and \<open>ea\<close> lies in the range of no entry with the given
  flags, \<^verbatim>\<open>tlb_ra_set\<close> does not return: the result is a failed assertion, and no
  state with an appended, evicted or overwritten entry exists. In a reachable state and
  with arguments that pass their checks, the assertion that fails is
  \<^verbatim>\<open>tlb.next <= TLB_SIZE\<close>, after the scan has found nothing and before any slot is
  written.
\<close>

theorem set_on_full_store_is_fatal:
  assumes "sint (next_tlb s) = 256"
    and "\<forall>i<256. \<not> (in_range va (tlb s ! i) \<and> flags (tlb s ! i) = fl)"
  shows "\<exists>e. tlb_ra_set va fl pa pagesize stack s = Inl e \<and>
     (reachable s \<longrightarrow> tlb_pagesize_validate pagesize = Inr () \<longrightarrow> tlb_flags_validate fl = Inr ()
        \<longrightarrow> e = Next_exceeds_size)"
proof -
  have n: "next_tlb s = 256"
  proof -
    have "sint (next_tlb s) = sint (256 :: c_int)" using assms(1) by simp
    then show ?thesis by (simp only: signed_word_eqI)
  qed
  have nohit: "\<not> hits va fl (tlb s ! nat j)" if "0 \<le> j" "j < 256" for j
  proof -
    from that have "nat j < 256" by linarith
    with assms(2) show ?thesis by (auto dest: hits_in_range)
  qed
  have over: "\<not> sint (next_tlb s + 1) \<le> 256"
    by (simp add: n)
  have found: "found = - 1 \<and> s1 = s" if "tlb_get_index va fl s = Inr (found, s1)" for found s1
    using tlb_get_index_from_cases [OF that [unfolded tlb_get_index_def]] nohit by auto
  have scan: "tlb_get_index va fl s = Inr (- 1, s)" if "reachable s"
  proof -
    from that have inv: "tlb_inv s" by (rule reachable_inv)
    have "entry_ok (tlb s ! nat j) \<and> \<not> hits va fl (tlb s ! nat j)"
      if j: "0 \<le> j" "j < sint (next_tlb s)" for j
    proof -
      from j assms(1) have k: "nat j < 256" by linarith
      with inv j have "valid (tlb s ! nat j)" by (simp add: tlb_inv_def)
      with inv k have "entry_ok (tlb s ! nat j)" by (intro tlb_inv_valid)
      with nohit [of j] j assms(1) show ?thesis by simp
    qed
    with inv assms(1) show ?thesis
      unfolding tlb_get_index_def by (intro tlb_get_index_from_none) (simp_all add: tlb_inv_def)
  qed
  show ?thesis
  proof (cases "tlb_pagesize_validate pagesize")
    case (Inl e)
    then show ?thesis by (simp add: tlb_ra_set_unfold)
  next
    case p: (Inr u)
    show ?thesis
    proof (cases "tlb_flags_validate fl")
      case (Inl e)
      with p show ?thesis by (simp add: tlb_ra_set_unfold)
    next
      case f: (Inr u')
      show ?thesis
      proof (cases "tlb_get_index va fl s")
        case (Inl e)
        with p f scan show ?thesis by (auto simp: tlb_ra_set_unfold)
      next
        case (Inr x)
        with found [of "fst x" "snd x"] have "x = (- 1, s)" by (cases x) simp
        with Inr p f over show ?thesis by (simp add: tlb_ra_set_unfold)
      qed
    qed
  qed
qed

text \<open>
  The full store, which 256 sets reach (lemma \<open>reachable_full_store\<close>), and a set for
  the page after its 256 pages.
\<close>

theorem set_on_full_store_is_fatal_witness:
  "reachable full_store \<and> sint (next_tlb full_store) = 256 \<and>
   valid (tlb full_store ! 0) \<and> valid (tlb full_store ! 255) \<and>
   tlb_ra_set 0x100000 0 0x100000 4096 zero_tlbe full_store = Inl Next_exceeds_size"
proof -
  have n: "sint (next_tlb full_store) = 256"
    by (simp add: full_store_def)
  have m: "\<forall>i<256. \<not> (in_range 0x100000 (tlb full_store ! i) \<and> flags (tlb full_store ! i) = 0)"
    by (simp add: full_store_def in_range_def page_def unat_page)
  have v: "valid (tlb full_store ! 0)" "valid (tlb full_store ! 255)"
    by (simp_all add: full_store_def page_def)
  have a: "tlb_pagesize_validate 4096 = Inr ()" "tlb_flags_validate 0 = Inr ()"
    by (simp_all add: tlb_pagesize_validate_def tlb_flags_validate_def)
  from set_on_full_store_is_fatal [OF n m, of "0x100000" 4096 zero_tlbe] reachable_full_store a
  have "tlb_ra_set 0x100000 0 0x100000 4096 zero_tlbe full_store = Inl Next_exceeds_size"
    by auto
  with n v reachable_full_store show ?thesis by simp
qed

end
